theory Spec2Isabelle
  imports Main
begin

unbundle bit_operations_syntax

section \<open>The composite container of the form renderer (NestedComponent.js)\<close>

text \<open>
  A shallow embedding of \<^verbatim>\<open>src/components/nested/NestedComponent.js\<close>. A container
  owns an ordered collection of children; every child is either another container or a
  leaf whose methods live in classes that are not part of this file (the base class, the
  concrete fields). What such a foreign method returns is a field of the instance, and
  every call that the container makes on a child is written to a call log, so that "was
  invoked", "in which order" and "with which arguments" are statements about a list.
\<close>

subsection \<open>JavaScript values\<close>

datatype jsval =
    JUndefined
  | JNull
  | JBool bool
  | JNum int
  | JStr string
  | JObj "(string \<times> jsval) list"

text \<open>Truthiness, as \<^verbatim>\<open>!value\<close>, \<^verbatim>\<open>a || b\<close> and \<^verbatim>\<open>if (x)\<close> read a value.\<close>

fun truthy :: "jsval \<Rightarrow> bool" where
  "truthy JUndefined = False"
| "truthy JNull = False"
| "truthy (JBool b) = b"
| "truthy (JNum n) = (n \<noteq> 0)"
| "truthy (JStr s) = (s \<noteq> [])"
| "truthy (JObj kvs) = True"

text \<open>
  Modelled from the spec: lodash's \<^verbatim>\<open>_.get\<close> is a library function outside the
  source. The spec describes the data as "addressed by key path segments" and the
  call as "extract that sub-value": the key is cut at its dots and the segments are
  followed through the own properties of nested objects; a missing segment gives
  \<^verbatim>\<open>undefined\<close>.
\<close>

fun key_path :: "string \<Rightarrow> string list" where
  "key_path [] = [[]]"
| "key_path (c # cs) =
     (if c = CHR ''.'' then [] # key_path cs
      else (case key_path cs of
              [] \<Rightarrow> [[c]]
            | p # ps \<Rightarrow> (c # p) # ps))"

fun get_path :: "jsval \<Rightarrow> string list \<Rightarrow> jsval option" where
  "get_path v [] = Some v"
| "get_path (JObj kvs) (k # ks) =
     (case map_of kvs k of
        None \<Rightarrow> None
      | Some x \<Rightarrow> get_path x ks)"
| "get_path v (k # ks) = None"

definition lodash_get :: "jsval \<Rightarrow> string \<Rightarrow> jsval" where
  "lodash_get v k = (case get_path v (key_path k) of None \<Rightarrow> JUndefined | Some x \<Rightarrow> x)"

definition lodash_has :: "jsval \<Rightarrow> string \<Rightarrow> bool" where
  "lodash_has v k = (get_path v (key_path k) \<noteq> None)"

subsection \<open>Flags, schema nodes, instances\<close>

text \<open>
  A flags object. The source reads and writes three of its properties, each by
  truthiness, so a property is a boolean here and \<open>False\<close> also stands for a property
  that is absent.
\<close>

record flags =
  noUpdateEvent :: bool
  noValidate :: bool
  noCheck :: bool

definition no_flags :: flags where
  "no_flags = \<lparr>noUpdateEvent = False, noValidate = False, noCheck = False\<rparr>"

text \<open>The schema node of an instance (\<^verbatim>\<open>this.component\<close>).\<close>

record schema =
  key :: string
  hidden :: bool
  internal :: bool

text \<open>A presentation element: a handle, and the handle of its parent node when attached.\<close>

record element =
  node :: nat
  parentNode :: "nat option"

text \<open>
  The part of an instance that every node has. Back references (\<open>parent\<close>,
  \<open>root\<close>) are held as ids, since they own nothing. The fields from \<open>hasValue\<close> on
  are the methods of the base class and of the leaf classes, which are outside the
  source: each field is what the call returns on this instance. For a container the
  same fields are what \<^verbatim>\<open>super.method(...)\<close> returns. \<open>checkCondition\<close> is the
  condition evaluator of the utilities (outside the source too) on this instance: its
  other arguments, the schema node, the instance's data and the root's form, are read
  off the instance, so the field maps the submission data to its verdict.

  \<open>visible\<close> is a property with a setter of the base class, also outside the source:
  \<^verbatim>\<open>component.visible = x\<close> does not store \<open>x\<close>, it runs that setter, which shows or
  hides the instance and may overrule \<open>x\<close> (the options carry per-key \<^verbatim>\<open>show\<close> and
  \<^verbatim>\<open>hide\<close> overrides). \<open>set_visible x\<close> is the value that \<open>visible\<close> holds on this
  instance after the assignment of \<open>x\<close>.
\<close>

record base =
  comp_id :: string
  component :: schema
  type :: string
  parent :: "string option"
  root :: "string option"
  isBuilt :: bool
  visible :: bool
  set_visible :: "bool \<Rightarrow> bool"
  getElement :: "element option"
  data :: jsval
  options :: jsval
  defaultValue :: jsval
  hasValue :: "jsval \<Rightarrow> bool"
  base_setValue :: "jsval \<Rightarrow> flags \<Rightarrow> bool"
  base_updateValue :: "flags \<Rightarrow> bool"
  base_calculateValue :: "jsval \<Rightarrow> flags \<Rightarrow> bool"
  base_checkValidity :: "jsval \<Rightarrow> jsval \<Rightarrow> bool"
  base_isValid :: "jsval \<Rightarrow> jsval \<Rightarrow> bool"
  base_checkConditions :: "jsval \<Rightarrow> bool"
  checkCondition :: "jsval \<Rightarrow> bool"
  conditionallyVisible :: bool

text \<open>
  An instance: a leaf, or a container (\<open>Nested\<close>) with its \<^verbatim>\<open>components\<close> and its
  \<^verbatim>\<open>hidden\<close> list (\<open>None\<close> when the property holds no array).
\<close>

datatype comp =
    Leaf base
  | Nested base "comp list" "string list option"

fun base_of :: "comp \<Rightarrow> base" where
  "base_of (Leaf b) = b"
| "base_of (Nested b cs h) = b"

fun getComponents :: "comp \<Rightarrow> comp list" where
  "getComponents (Leaf b) = []"
| "getComponents (Nested b cs h) = cs"

fun map_base :: "(base \<Rightarrow> base) \<Rightarrow> comp \<Rightarrow> comp" where
  "map_base g (Leaf b) = Leaf (g b)"
| "map_base g (Nested b cs h) = Nested (g b) cs h"

definition comp_key :: "comp \<Rightarrow> string" where
  "comp_key c = key (component (base_of c))"

subsection \<open>The call log\<close>

text \<open>
  One entry per call made on an instance, with the id of the instance and the
  arguments; a flags argument is logged as the object's content at the time of the call.
\<close>

datatype event =
    SetValue string jsval flags
  | UpdateValue string flags
  | CalculateValue string jsval flags
  | CheckConditions string jsval
  | CheckValidity string jsval jsval
  | IsValid string jsval jsval
  | SuperCalculateValue string jsval flags
  | SuperCheckConditions string jsval
  | SuperCheckValidity string jsval jsval
  | SuperIsValid string jsval jsval
  | SetCustomValidity string string
  | TriggerChange string flags
  | Destroy string
  | RemoveChildFrom nat nat
  | InsertBefore nat nat nat
  | AppendChild nat nat
  | Warn string
  | Callback "comp option" "comp list option"

subsection \<open>Value propagation: setNestedValue and setValue\<close>

text \<open>
  Modelled from the spec: \<^verbatim>\<open>getFlags\<close> belongs to the base class, which is outside the
  source. The spec hands the caller's flags on to the children as they are ("call the
  child's setValue(extracted, flags)"), so on a flags object it is that same object.
\<close>

definition getFlags :: "jsval \<Rightarrow> flags \<Rightarrow> flags" where
  "getFlags v f = f"

text \<open>
  The flags object is one shared, mutable object: it is threaded through every call and
  returned as the call leaves it. A leaf's \<^verbatim>\<open>setValue\<close> returns its \<open>changed\<close> and
  leaves the flags alone. \<open>call_setValue\<close> is \<^verbatim>\<open>component.setValue(value, flags)\<close> on a
  child: the call is logged, and a child that is a container runs \<open>setValue\<close> below.
  \<open>setValue\<close> takes the container by its \<^verbatim>\<open>getComponents()\<close>; \<open>setValue_reduce\<close> is the
  \<^verbatim>\<open>reduce\<close> over them with its accumulator \<open>changed\<close>.
\<close>

fun setNestedValue :: "comp \<Rightarrow> jsval \<Rightarrow> flags \<Rightarrow> bool \<Rightarrow> bool \<times> flags \<times> event list"
  and call_setValue :: "comp \<Rightarrow> jsval \<Rightarrow> flags \<Rightarrow> bool \<times> flags \<times> event list"
  and setValue :: "comp list \<Rightarrow> jsval \<Rightarrow> flags \<Rightarrow> bool \<times> flags \<times> event list"
  and setValue_reduce :: "comp list \<Rightarrow> jsval \<Rightarrow> flags \<Rightarrow> bool \<Rightarrow> bool \<times> flags \<times> event list"
where
  "setNestedValue c v f changed =
     (if type (base_of c) = ''button'' then (False, f, [])
      else if type (base_of c) = ''components'' then
        (case call_setValue c v f of (r, f', t) \<Rightarrow> (r \<or> changed, f', t))
      else if truthy v \<and> hasValue (base_of c) v then
        (case call_setValue c (lodash_get v (comp_key c)) f of
           (r, f', t) \<Rightarrow> (r \<or> changed, f', t))
      else
        (case call_setValue c (defaultValue (base_of c)) (f\<lparr>noValidate := True\<rparr>) of
           (r, f', t) \<Rightarrow> (r \<or> changed, f', t)))"
| "call_setValue (Leaf b) v f = (base_setValue b v f, f, [SetValue (comp_id b) v f])"
| "call_setValue (Nested b cs h) v f =
     (case setValue cs v f of (r, f', t) \<Rightarrow> (r, f', SetValue (comp_id b) v f # t))"
| "setValue cs v f =
     (if \<not> truthy v then (False, f, [])
      else setValue_reduce cs v (getFlags v f) False)"
| "setValue_reduce [] v f changed = (changed, f, [])"
| "setValue_reduce (c # cs) v f changed =
     (case setNestedValue c v f changed of
        (changed', f', t) \<Rightarrow>
          (case setValue_reduce cs v f' changed' of
             (r, f'', t') \<Rightarrow> (r, f'', t @ t')))"

text \<open>What a child alone reports for the value object: the result of its own call.\<close>

definition child_changed :: "comp \<Rightarrow> jsval \<Rightarrow> flags \<Rightarrow> bool" where
  "child_changed c v f =
     (if type (base_of c) = ''button'' then False
      else fst (setNestedValue c v f False))"

fun ev_noValidate :: "event \<Rightarrow> bool" where
  "ev_noValidate (SetValue i v f) = noValidate f"
| "ev_noValidate e = True"

subsection \<open>Validity: isValid and checkValidity\<close>

text \<open>
  A container is given by its base part \<open>b\<close> and its components \<open>cs\<close>.
  \<open>call_checkValidity\<close> is \<^verbatim>\<open>comp.checkValidity(data, dirty)\<close> on a child, logged;
  \<open>checkValidity_reduce\<close> is the \<^verbatim>\<open>reduce\<close> with its accumulator \<open>check\<close>, whose
  initial value \<^verbatim>\<open>super.checkValidity(data, dirty)\<close> is evaluated before the first
  child is reached.
\<close>

fun call_checkValidity :: "comp \<Rightarrow> jsval \<Rightarrow> jsval \<Rightarrow> bool \<times> event list"
  and checkValidity :: "base \<Rightarrow> comp list \<Rightarrow> jsval \<Rightarrow> jsval \<Rightarrow> bool \<times> event list"
  and checkValidity_reduce :: "comp list \<Rightarrow> jsval \<Rightarrow> jsval \<Rightarrow> bool \<Rightarrow> bool \<times> event list"
where
  "call_checkValidity (Leaf b) d dirty =
     (base_checkValidity b d dirty, [CheckValidity (comp_id b) d dirty])"
| "call_checkValidity (Nested b cs h) d dirty =
     (case checkValidity b cs d dirty of
        (r, t) \<Rightarrow> (r, CheckValidity (comp_id b) d dirty # t))"
| "checkValidity b cs d dirty =
     (if \<not> checkCondition b d then (True, [SetCustomValidity (comp_id b) []])
      else
        (case checkValidity_reduce cs d dirty (base_checkValidity b d dirty) of
           (r, t) \<Rightarrow> (r, SuperCheckValidity (comp_id b) d dirty # t)))"
| "checkValidity_reduce [] d dirty check = (check, [])"
| "checkValidity_reduce (c # cs) d dirty check =
     (case call_checkValidity c d dirty of
        (r, t) \<Rightarrow>
          (case checkValidity_reduce cs d dirty (r \<and> check) of
             (r', t') \<Rightarrow> (r', t @ t')))"

fun call_isValid :: "comp \<Rightarrow> jsval \<Rightarrow> jsval \<Rightarrow> bool \<times> event list"
  and isValid :: "base \<Rightarrow> comp list \<Rightarrow> jsval \<Rightarrow> jsval \<Rightarrow> bool \<times> event list"
  and isValid_reduce :: "comp list \<Rightarrow> jsval \<Rightarrow> jsval \<Rightarrow> bool \<Rightarrow> bool \<times> event list"
where
  "call_isValid (Leaf b) d dirty = (base_isValid b d dirty, [IsValid (comp_id b) d dirty])"
| "call_isValid (Nested b cs h) d dirty =
     (case isValid b cs d dirty of
        (r, t) \<Rightarrow> (r, IsValid (comp_id b) d dirty # t))"
| "isValid b cs d dirty =
     (case isValid_reduce cs d dirty (base_isValid b d dirty) of
        (r, t) \<Rightarrow> (r, SuperIsValid (comp_id b) d dirty # t))"
| "isValid_reduce [] d dirty valid = (valid, [])"
| "isValid_reduce (c # cs) d dirty valid =
     (case call_isValid c d dirty of
        (r, t) \<Rightarrow>
          (case isValid_reduce cs d dirty (r \<and> valid) of
             (r', t') \<Rightarrow> (r', t @ t')))"

subsection \<open>The change cycle: updateValue, calculateValue, checkConditions, checkData\<close>

fun call_updateValue :: "comp \<Rightarrow> flags \<Rightarrow> bool \<times> event list"
  and updateValue :: "comp list \<Rightarrow> flags \<Rightarrow> bool \<times> event list"
  and updateValue_reduce :: "comp list \<Rightarrow> flags \<Rightarrow> bool \<Rightarrow> bool \<times> event list"
where
  "call_updateValue (Leaf b) f = (base_updateValue b f, [UpdateValue (comp_id b) f])"
| "call_updateValue (Nested b cs h) f =
     (case updateValue cs f of (r, t) \<Rightarrow> (r, UpdateValue (comp_id b) f # t))"
| "updateValue cs f = updateValue_reduce cs f False"
| "updateValue_reduce [] f changed = (changed, [])"
| "updateValue_reduce (c # cs) f changed =
     (case call_updateValue c f of
        (r, t) \<Rightarrow>
          (case updateValue_reduce cs f (r \<or> changed) of
             (r', t') \<Rightarrow> (r', t @ t')))"

fun call_calculateValue :: "comp \<Rightarrow> jsval \<Rightarrow> flags \<Rightarrow> bool \<times> event list"
  and calculateValue :: "base \<Rightarrow> comp list \<Rightarrow> jsval \<Rightarrow> flags \<Rightarrow> bool \<times> event list"
  and calculateValue_reduce :: "comp list \<Rightarrow> jsval \<Rightarrow> flags \<Rightarrow> bool \<Rightarrow> bool \<times> event list"
where
  "call_calculateValue (Leaf b) d f =
     (base_calculateValue b d f, [CalculateValue (comp_id b) d f])"
| "call_calculateValue (Nested b cs h) d f =
     (case calculateValue b cs d f of
        (r, t) \<Rightarrow> (r, CalculateValue (comp_id b) d f # t))"
| "calculateValue b cs d f =
     (case calculateValue_reduce cs d f (base_calculateValue b d f) of
        (r, t) \<Rightarrow> (r, SuperCalculateValue (comp_id b) d f # t))"
| "calculateValue_reduce [] d f changed = (changed, [])"
| "calculateValue_reduce (c # cs) d f changed =
     (case call_calculateValue c d f of
        (r, t) \<Rightarrow>
          (case calculateValue_reduce cs d f (r \<or> changed) of
             (r', t') \<Rightarrow> (r', t @ t')))"

text \<open>\<^verbatim>\<open>checkConditions\<close>: every child first, then the container's own check.\<close>

fun call_checkConditions :: "comp \<Rightarrow> jsval \<Rightarrow> bool \<times> event list"
  and checkConditions :: "base \<Rightarrow> comp list \<Rightarrow> jsval \<Rightarrow> bool \<times> event list"
  and checkConditions_forEach :: "comp list \<Rightarrow> jsval \<Rightarrow> event list"
where
  "call_checkConditions (Leaf b) d = (base_checkConditions b d, [CheckConditions (comp_id b) d])"
| "call_checkConditions (Nested b cs h) d =
     (case checkConditions b cs d of
        (r, t) \<Rightarrow> (r, CheckConditions (comp_id b) d # t))"
| "checkConditions b cs d =
     (base_checkConditions b d,
      checkConditions_forEach cs d @ [SuperCheckConditions (comp_id b) d])"
| "checkConditions_forEach [] d = []"
| "checkConditions_forEach (c # cs) d =
     snd (call_checkConditions c d) @ checkConditions_forEach cs d"

text \<open>
  The locals \<^verbatim>\<open>changed\<close> and \<^verbatim>\<open>valid\<close> of \<^verbatim>\<open>checkData\<close> are updated with the
  bitwise assignments \<^verbatim>\<open>|=\<close> and \<^verbatim>\<open>&=\<close>, which turn both operands into 32-bit
  integers and give a number. The values these locals and the result range over:
\<close>

datatype jsprim =
    Undefined
  | Boolean bool
  | Number int

fun toInt32 :: "jsprim \<Rightarrow> int" where
  "toInt32 Undefined = 0"
| "toInt32 (Boolean b) = (if b then 1 else 0)"
| "toInt32 (Number n) = signed_take_bit 31 n"

definition bit_or :: "jsprim \<Rightarrow> jsprim \<Rightarrow> jsprim" where
  "bit_or a b = Number (toInt32 a OR toInt32 b)"

definition bit_and :: "jsprim \<Rightarrow> jsprim \<Rightarrow> jsprim" where
  "bit_and a b = Number (toInt32 a AND toInt32 b)"

fun truthy_prim :: "jsprim \<Rightarrow> bool" where
  "truthy_prim Undefined = False"
| "truthy_prim (Boolean b) = b"
| "truthy_prim (Number n) = (n \<noteq> 0)"

text \<open>The object literal \<^verbatim>\<open>{noUpdateEvent: true}\<close>.\<close>

definition only_noUpdateEvent :: flags where
  "only_noUpdateEvent = \<lparr>noUpdateEvent = True, noValidate = False, noCheck = False\<rparr>"

text \<open>
  The \<^verbatim>\<open>forEach\<close> of \<^verbatim>\<open>checkData\<close> with the two locals it updates. The child's
  \<^verbatim>\<open>checkValidity(data)\<close> gets no second argument.
\<close>

fun checkData_forEach ::
  "comp list \<Rightarrow> jsval \<Rightarrow> flags \<Rightarrow> jsprim \<Rightarrow> jsprim \<Rightarrow> jsprim \<times> jsprim \<times> event list"
where
  "checkData_forEach [] d f changed valid = (changed, valid, [])"
| "checkData_forEach (c # cs) d f changed valid =
     (case call_calculateValue c d only_noUpdateEvent of
        (r1, t1) \<Rightarrow>
          (case call_checkConditions c d of
             (r2, t2) \<Rightarrow>
               (case (if \<not> noValidate f
                      then (case call_checkValidity c d JUndefined of
                              (r3, t3) \<Rightarrow> (bit_and valid (Boolean r3), t3))
                      else (valid, [])) of
                  (valid', t3) \<Rightarrow>
                    (case checkData_forEach cs d f (bit_or changed (Boolean r1)) valid' of
                       (changed', valid'', t) \<Rightarrow> (changed', valid'', t1 @ t2 @ t3 @ t)))))"

text \<open>
  \<^verbatim>\<open>checkData(data, flags)\<close>; the flags argument is \<open>None\<close> when the caller passes
  none (\<^verbatim>\<open>flags = flags || {}\<close>). The result is \<open>Undefined\<close> for the bare
  \<^verbatim>\<open>return\<close>.
\<close>

definition checkData :: "base \<Rightarrow> comp list \<Rightarrow> jsval \<Rightarrow> flags option \<Rightarrow> jsprim \<times> event list" where
  "checkData b cs d fo =
     (let f = (case fo of None \<Rightarrow> no_flags | Some g \<Rightarrow> g) in
      if noCheck f then (Undefined, [])
      else
        (case updateValue cs only_noUpdateEvent of
           (changed0, t0) \<Rightarrow>
             (case checkData_forEach cs d f (Boolean changed0) (Boolean True) of
                (changed, valid, t) \<Rightarrow>
                  (valid,
                   t0 @ t @ (if truthy_prim changed then [TriggerChange (comp_id b) f] else [])))))"

subsection \<open>Traversal: eachComponent and everyComponent\<close>

text \<open>
  A visitor is a function of the caller: it has a state of its own (\<open>'s\<close>), and it
  returns a value. \<^verbatim>\<open>_.each\<close> leaves its loop when the callback returns \<^verbatim>\<open>false\<close>,
  and the callback returns \<^verbatim>\<open>false\<close> exactly when \<^verbatim>\<open>fn(...) === false\<close>.

  The visitor of \<^verbatim>\<open>eachComponent\<close> gets \<^verbatim>\<open>(component, index)\<close>; it may change fields
  of the component, so it also returns the component as it leaves it.
\<close>

fun each_from ::
  "('s \<Rightarrow> comp \<Rightarrow> nat \<Rightarrow> jsval \<times> 's \<times> comp) \<Rightarrow> nat \<Rightarrow> 's \<Rightarrow> comp list \<Rightarrow> 's \<times> comp list"
where
  "each_from fn i st [] = (st, [])"
| "each_from fn i st (c # cs) =
     (case fn st c i of
        (r, st', c') \<Rightarrow>
          if r = JBool False then (st', c' # cs)
          else (case each_from fn (Suc i) st' cs of
                  (st'', cs') \<Rightarrow> (st'', c' # cs')))"

definition eachComponent ::
  "('s \<Rightarrow> comp \<Rightarrow> nat \<Rightarrow> jsval \<times> 's \<times> comp) \<Rightarrow> 's \<Rightarrow> comp list \<Rightarrow> 's \<times> comp list"
where
  "eachComponent fn st cs = each_from fn 0 st cs"

text \<open>
  The visitor of \<^verbatim>\<open>everyComponent\<close> gets \<^verbatim>\<open>(component, components, index)\<close>. It
  either returns a value and leaves the tree as it is (\<open>Returned\<close>), or it edits the
  sibling collection it was handed and returns \<^verbatim>\<open>false\<close> (\<open>Spliced\<close>, with the
  collection as it leaves it): that is what the callbacks of the removal methods do. A
  visitor that edits the collection and lets the traversal go on is outside the model
  (the spec makes it the caller's contract not to).
\<close>

datatype 's visit =
    Returned jsval 's
  | Spliced 's "comp list"

text \<open>
  \<open>every_each\<close> is the \<^verbatim>\<open>_.each\<close> loop of \<^verbatim>\<open>everyComponent\<close>: \<open>seen\<close> are the
  entries before the index, \<open>c # rest\<close> the entry at the index and those after it. A
  child with an \<^verbatim>\<open>everyComponent\<close> method is a container. The method has no
  \<^verbatim>\<open>return\<close> statement, so its value is \<^verbatim>\<open>undefined\<close>.
\<close>

fun everyComponent ::
  "('s \<Rightarrow> comp \<Rightarrow> comp list \<Rightarrow> nat \<Rightarrow> 's visit) \<Rightarrow> 's \<Rightarrow> comp list \<Rightarrow> jsval \<times> 's \<times> comp list"
  and every_each ::
  "('s \<Rightarrow> comp \<Rightarrow> comp list \<Rightarrow> nat \<Rightarrow> 's visit) \<Rightarrow> 's \<Rightarrow> comp list \<Rightarrow> comp list \<Rightarrow> 's \<times> comp list"
where
  "everyComponent fn st components =
     (case every_each fn st [] components of
        (st', components') \<Rightarrow> (JUndefined, st', components'))"
| "every_each fn st seen [] = (st, seen)"
| "every_each fn st seen (Leaf b # rest) =
     (case fn st (Leaf b) (seen @ Leaf b # rest) (length seen) of
        Spliced st' components' \<Rightarrow> (st', components')
      | Returned r st' \<Rightarrow>
          if r = JBool False then (st', seen @ Leaf b # rest)
          else every_each fn st' (seen @ [Leaf b]) rest)"
| "every_each fn st seen (Nested b cs h # rest) =
     (case fn st (Nested b cs h) (seen @ Nested b cs h # rest) (length seen) of
        Spliced st' components' \<Rightarrow> (st', components')
      | Returned r st' \<Rightarrow>
          if r = JBool False then (st', seen @ Nested b cs h # rest)
          else
            (case everyComponent fn st' cs of
               (r', st'', cs') \<Rightarrow>
                 if r' = JBool False then (st'', seen @ Nested b cs' h # rest)
                 else every_each fn st'' (seen @ [Nested b cs' h]) rest))"

subsection \<open>Lookup and removal\<close>

text \<open>
  \<^verbatim>\<open>getComponent(key, fn)\<close>: the local \<^verbatim>\<open>comp\<close> and the state \<open>u\<close> of the callback
  are the visitor's state. The callback \<open>fn\<close> is optional; it gets the match and the
  sibling collection, and returns its state and the collection as it leaves it.
\<close>

definition getComponent ::
  "comp list \<Rightarrow> string \<Rightarrow> ('u \<Rightarrow> comp \<Rightarrow> comp list \<Rightarrow> 'u \<times> comp list) option \<Rightarrow> 'u
     \<Rightarrow> comp option \<times> 'u \<times> comp list"
where
  "getComponent components k fn u =
     (case everyComponent
             (\<lambda>(found, u) c siblings i.
                 if key (component (base_of c)) = k then
                   (case fn of
                      None \<Rightarrow> Returned (JBool False) (Some c, u)
                    | Some g \<Rightarrow>
                        (case g u c siblings of
                           (u', siblings') \<Rightarrow> Spliced (Some c, u') siblings'))
                 else Returned JUndefined (found, u))
             (None, u) components of
        (r, (found, u'), components') \<Rightarrow> (found, u', components'))"

definition getComponentById ::
  "comp list \<Rightarrow> string \<Rightarrow> ('u \<Rightarrow> comp \<Rightarrow> comp list \<Rightarrow> 'u \<times> comp list) option \<Rightarrow> 'u
     \<Rightarrow> comp option \<times> 'u \<times> comp list"
where
  "getComponentById components i fn u =
     (case everyComponent
             (\<lambda>(found, u) c siblings n.
                 if comp_id (base_of c) = i then
                   (case fn of
                      None \<Rightarrow> Returned (JBool False) (Some c, u)
                    | Some g \<Rightarrow>
                        (case g u c siblings of
                           (u', siblings') \<Rightarrow> Spliced (Some c, u') siblings'))
                 else Returned JUndefined (found, u))
             (None, u) components of
        (r, (found, u'), components') \<Rightarrow> (found, u', components'))"

text \<open>
  \<^verbatim>\<open>removeComponent(component, components)\<close>: the child's own \<^verbatim>\<open>destroy()\<close> is one
  logged call; the element is detached when it has a parent node; \<^verbatim>\<open>_.remove\<close> takes
  every entry with the component's id out of the collection. The result is the
  collection (the one passed, or \<^verbatim>\<open>this.components\<close> when none is passed) afterwards.
\<close>

definition removeComponent :: "comp list \<Rightarrow> comp \<Rightarrow> comp list option \<Rightarrow> comp list \<times> event list" where
  "removeComponent this_components c components =
     (let collection = (case components of None \<Rightarrow> this_components | Some x \<Rightarrow> x) in
        (filter (\<lambda>x. comp_id (base_of x) \<noteq> comp_id (base_of c)) collection,
         Destroy (comp_id (base_of c)) #
         (case getElement (base_of c) of
            None \<Rightarrow> []
          | Some e \<Rightarrow>
              (case parentNode e of
                 None \<Rightarrow> []
               | Some p \<Rightarrow> [RemoveChildFrom (node e) p]))))"

text \<open>
  \<^verbatim>\<open>removeComponentByKey(key, fn)\<close> and \<^verbatim>\<open>removeComponentById(id, fn)\<close>. The caller's
  callback is foreign code: \<open>has_fn\<close> says whether one was passed, and each call of it
  is logged with its arguments (\<open>Callback None None\<close> is \<^verbatim>\<open>fn(null)\<close>). The first
  component of the result is the value the method returns: \<^verbatim>\<open>null\<close> from the
  \<^verbatim>\<open>return null\<close> on a miss, \<^verbatim>\<open>undefined\<close> where the body runs to its end.
\<close>

definition removeComponentByKey :: "comp list \<Rightarrow> string \<Rightarrow> bool \<Rightarrow> jsval \<times> comp list \<times> event list" where
  "removeComponentByKey components k has_fn =
     (case getComponent components k
             (Some (\<lambda>log c siblings.
                (case removeComponent components c (Some siblings) of
                   (siblings', t) \<Rightarrow>
                     (log @ t @ (if has_fn then [Callback (Some c) (Some siblings')] else []),
                      siblings'))))
             [] of
        (None, log, components') \<Rightarrow>
          (JNull, components', log @ (if has_fn then [Callback None None] else []))
      | (Some c, log, components') \<Rightarrow> (JUndefined, components', log))"

definition removeComponentById :: "comp list \<Rightarrow> string \<Rightarrow> bool \<Rightarrow> jsval \<times> comp list \<times> event list" where
  "removeComponentById components i has_fn =
     (case getComponentById components i
             (Some (\<lambda>log c siblings.
                (case removeComponent components c (Some siblings) of
                   (siblings', t) \<Rightarrow>
                     (log @ t @ (if has_fn then [Callback (Some c) (Some siblings')] else []),
                      siblings'))))
             [] of
        (None, log, components') \<Rightarrow>
          (JNull, components', log @ (if has_fn then [Callback None None] else []))
      | (Some c, log, components') \<Rightarrow> (JUndefined, components', log))"

subsection \<open>The visibility cascade: setHidden and hideComponents\<close>

text \<open>
  Modelled from the spec: the \<^verbatim>\<open>key\<close> getter of an instance belongs to the base class;
  the spec lists the identity field as "key (via nested schema)", which is \<open>comp_key\<close>.

  \<open>setHidden\<close> takes \<^verbatim>\<open>this.hidden\<close> of the container it runs on and the child, and
  returns the child as it leaves it. \<open>hideComponents\<close> runs on the container \<open>b cs\<close>;
  \<open>hide_each\<close> is its \<^verbatim>\<open>eachComponent\<close> with the visitor
  \<^verbatim>\<open>(component) => this.setHidden(component)\<close>, which returns \<^verbatim>\<open>undefined\<close> and so
  never leaves the loop.
\<close>

definition includes_key :: "string list option \<Rightarrow> string \<Rightarrow> bool" where
  "includes_key hid k = (case hid of None \<Rightarrow> False | Some ks \<Rightarrow> k \<in> set ks)"

text \<open>\<^verbatim>\<open>component.visible = x\<close>: the instance after its setter has run.\<close>

definition assign_visible :: "bool \<Rightarrow> comp \<Rightarrow> comp" where
  "assign_visible x c = map_base (\<lambda>b. b\<lparr>visible := set_visible b x\<rparr>) c"

fun setHidden :: "string list option \<Rightarrow> comp \<Rightarrow> comp"
  and hideComponents :: "base \<Rightarrow> comp list \<Rightarrow> string list option \<Rightarrow> comp"
  and hide_each :: "string list option \<Rightarrow> comp list \<Rightarrow> comp list"
where
  "setHidden hid (Nested b (x # xs) h) = hideComponents b (x # xs) hid"
| "setHidden hid c =
     (if hidden (component (base_of c)) then assign_visible False c
      else if includes_key hid (comp_key c) then assign_visible False c
      else if \<not> conditionallyVisible (base_of c) then assign_visible False c
      else c)"
| "hideComponents b cs hid = Nested b (hide_each hid cs) hid"
| "hide_each hid [] = []"
| "hide_each hid (c # cs) = setHidden hid c # hide_each hid cs"

subsection \<open>Creating and adding children\<close>

text \<open>\<^verbatim>\<open>_.findIndex\<close>: the first index whose entry matches, \<open>None\<close> for \<^verbatim>\<open>-1\<close>.\<close>

fun findIndex :: "('a \<Rightarrow> bool) \<Rightarrow> 'a list \<Rightarrow> nat option" where
  "findIndex P [] = None"
| "findIndex P (x # xs) =
     (if P x then Some 0
      else (case findIndex P xs of None \<Rightarrow> None | Some i \<Rightarrow> Some (Suc i)))"

text \<open>\<^verbatim>\<open>array.splice(index, 0, item)\<close>.\<close>

definition splice_in :: "nat \<Rightarrow> 'a \<Rightarrow> 'a list \<Rightarrow> 'a list" where
  "splice_in i x xs = take i xs @ x # drop i xs"

text \<open>
  \<^verbatim>\<open>createComponent(component, options, data, before)\<close> on the container \<open>b cs\<close>. The
  factory \<^verbatim>\<open>Components.create\<close> and the new instance's own \<^verbatim>\<open>build()\<close> are outside
  the source and are parameters (\<open>create\<close>, \<open>build\<close>); \<open>build\<close> returns the instance
  as built and leaves the container's collection alone. The result is the instance,
  the collection afterwards, and the index at which the instance stands in it
  (\<open>None\<close> when it was not inserted).
\<close>

definition createComponent ::
  "(schema \<Rightarrow> jsval \<Rightarrow> jsval \<Rightarrow> bool \<Rightarrow> comp) \<Rightarrow> (comp \<Rightarrow> comp) \<Rightarrow>
   base \<Rightarrow> comp list \<Rightarrow> schema \<Rightarrow> jsval \<Rightarrow> jsval \<Rightarrow> comp option
     \<Rightarrow> comp \<times> comp list \<times> nat option"
where
  "createComponent create build b cs s opts d before =
     (let opts' = (if truthy opts then opts else options b);
          d' = (if truthy d then d else data b);
          inst0 = create s opts' d' True;
          inst1 = map_base (\<lambda>x. x\<lparr>parent := Some (comp_id b)\<rparr>) inst0;
          inst2 = map_base (\<lambda>x. x\<lparr>root := (case root b of
                                              None \<Rightarrow> Some (comp_id b)
                                            | Some r \<Rightarrow> Some r)\<rparr>) inst1;
          inst3 = build inst2;
          inst = map_base (\<lambda>x. x\<lparr>isBuilt := True\<rparr>) inst3
      in if internal s then (inst, cs, None)
         else
           (case before of
              Some bf \<Rightarrow>
                (case findIndex (\<lambda>c. comp_id (base_of c) = comp_id (base_of bf)) cs of
                   Some index \<Rightarrow> (inst, splice_in index inst cs, Some index)
                 | None \<Rightarrow> (inst, cs @ [inst], Some (length cs)))
            | None \<Rightarrow> (inst, cs @ [inst], Some (length cs))))"

text \<open>
  \<^verbatim>\<open>addComponent(component, element, data, before, noAdd)\<close> on the container
  \<open>b cs hid\<close>. An element is a node handle; \<open>before\<close> is an element together with its
  \<^verbatim>\<open>component\<close> property. The \<^verbatim>\<open>addComponent\<close> hook of the base class is the parameter
  \<open>hook\<close>. Calling \<^verbatim>\<open>insertBefore\<close> or \<^verbatim>\<open>appendChild\<close> on no element is a
  \<^verbatim>\<open>TypeError\<close>. Since the new instance and the entry of the collection are one
  object, what \<open>setHidden\<close> changes shows in both.
\<close>

datatype error = TypeError

definition addComponent ::
  "(schema \<Rightarrow> jsval \<Rightarrow> jsval \<Rightarrow> bool \<Rightarrow> comp) \<Rightarrow> (comp \<Rightarrow> comp) \<Rightarrow> (nat option \<Rightarrow> comp \<Rightarrow> nat option) \<Rightarrow>
   base \<Rightarrow> comp list \<Rightarrow> string list option \<Rightarrow>
   schema \<Rightarrow> nat option \<Rightarrow> jsval \<Rightarrow> (nat \<times> comp option) option \<Rightarrow> bool
     \<Rightarrow> error + (comp \<times> comp list \<times> event list)"
where
  "addComponent create build hook b cs hid s el d before noAdd =
     (let el1 = (case el of None \<Rightarrow> map_option node (getElement b) | Some e \<Rightarrow> Some e);
          d' = (if truthy d then d else data b)
      in case createComponent create build b cs s (options b) d'
                (case before of None \<Rightarrow> None | Some (bnode, bcomp) \<Rightarrow> bcomp) of
           (inst, cs', at) \<Rightarrow>
             if noAdd then Inr (inst, cs', [])
             else
               (let el2 = hook el1 inst in
                  case getElement (base_of inst) of
                    None \<Rightarrow> Inr (inst, cs', [Warn (key s)])
                  | Some compElement \<Rightarrow>
                      (case el2 of
                         None \<Rightarrow> Inl TypeError
                       | Some e \<Rightarrow>
                           (let inst' = setHidden hid inst in
                              Inr (inst',
                                   (case at of None \<Rightarrow> cs' | Some i \<Rightarrow> cs'[i := inst']),
                                   [case before of
                                      None \<Rightarrow> AppendChild e (node compElement)
                                    | Some (bnode, bcomp) \<Rightarrow> InsertBefore e (node compElement) bnode])))))"

subsection \<open>Recording visitors and what the claims say they see\<close>

text \<open>
  A recording visitor appends each call it gets to its state and returns what the
  function \<open>ret\<close> says; it changes nothing.
\<close>

definition each_recorder ::
  "(comp \<Rightarrow> nat \<Rightarrow> jsval) \<Rightarrow> (comp \<times> nat) list \<Rightarrow> comp \<Rightarrow> nat \<Rightarrow> jsval \<times> (comp \<times> nat) list \<times> comp" where
  "each_recorder ret log c i = (ret c i, log @ [(c, i)], c)"

definition every_recorder ::
  "(comp \<Rightarrow> comp list \<Rightarrow> nat \<Rightarrow> jsval) \<Rightarrow> (comp \<times> comp list \<times> nat) list \<Rightarrow> comp \<Rightarrow> comp list \<Rightarrow> nat
     \<Rightarrow> (comp \<times> comp list \<times> nat) list visit" where
  "every_recorder ret log c siblings i = Returned (ret c siblings i) (log @ [(c, siblings, i)])"

text \<open>
  In the words of the claim, for \<^verbatim>\<open>eachComponent\<close>: the direct children in collection
  order, each with its index, up to and including the first one on which the visitor
  returns \<^verbatim>\<open>false\<close>.
\<close>

definition each_visits :: "(comp \<Rightarrow> nat \<Rightarrow> jsval) \<Rightarrow> comp list \<Rightarrow> (comp \<times> nat) list" where
  "each_visits ret cs =
     (let calls = zip cs [0..<length cs] in
        takeWhile (\<lambda>(c, i). ret c i \<noteq> JBool False) calls @
        take 1 (dropWhile (\<lambda>(c, i). ret c i \<noteq> JBool False) calls))"

text \<open>
  In the words of the claim, for \<^verbatim>\<open>everyComponent\<close>: depth first and pre-order; a
  child is visited with its sibling collection and index; when the visit returns
  \<^verbatim>\<open>false\<close> the loop of that level ends there; otherwise a container child is
  descended into before its next sibling is visited, and whatever happens inside it,
  the loop of this level goes on.
\<close>

fun every_visits ::
  "(comp \<Rightarrow> comp list \<Rightarrow> nat \<Rightarrow> jsval) \<Rightarrow> comp list \<Rightarrow> nat \<Rightarrow> comp list \<Rightarrow> (comp \<times> comp list \<times> nat) list"
where
  "every_visits ret siblings i [] = []"
| "every_visits ret siblings i (Leaf b # rest) =
     (Leaf b, siblings, i) #
     (if ret (Leaf b) siblings i = JBool False then []
      else every_visits ret siblings (Suc i) rest)"
| "every_visits ret siblings i (Nested b cs h # rest) =
     (Nested b cs h, siblings, i) #
     (if ret (Nested b cs h) siblings i = JBool False then []
      else every_visits ret cs 0 cs @ every_visits ret siblings (Suc i) rest)"

text \<open>Some node of a forest satisfies \<open>P\<close>.\<close>

fun any_comp :: "(comp \<Rightarrow> bool) \<Rightarrow> comp list \<Rightarrow> bool" where
  "any_comp P [] = False"
| "any_comp P (Leaf b # rest) = (P (Leaf b) \<or> any_comp P rest)"
| "any_comp P (Nested b cs h # rest) = (P (Nested b cs h) \<or> any_comp P cs \<or> any_comp P rest)"

text \<open>The visitor of \<^verbatim>\<open>getComponent\<close> and \<^verbatim>\<open>getComponentById\<close>, with the test as a parameter.\<close>

definition finder ::
  "(comp \<Rightarrow> bool) \<Rightarrow> ('u \<Rightarrow> comp \<Rightarrow> comp list \<Rightarrow> 'u \<times> comp list) option \<Rightarrow>
   comp option \<times> 'u \<Rightarrow> comp \<Rightarrow> comp list \<Rightarrow> nat \<Rightarrow> (comp option \<times> 'u) visit"
where
  "finder P fn st c siblings i =
     (if P c then
        (case fn of
           None \<Rightarrow> Returned (JBool False) (Some c, snd st)
         | Some g \<Rightarrow>
             (case g (snd st) c siblings of
                (u', siblings') \<Rightarrow> Spliced (Some c, u') siblings'))
      else Returned JUndefined st)"

subsection \<open>Example instances\<close>

text \<open>
  A field with the given id, key and type: it has a value in an object that holds its
  key, reports a change when it is set to anything but the empty text, is valid, and
  has no override on its visibility (its setter stores what is assigned).
\<close>

definition field :: "string \<Rightarrow> string \<Rightarrow> base" where
  "field i ty =
     \<lparr>comp_id = i,
      component = \<lparr>key = i, hidden = False, internal = False\<rparr>,
      type = ty,
      parent = None,
      root = None,
      isBuilt = True,
      visible = True,
      set_visible = (\<lambda>x. x),
      getElement = None,
      data = JObj [],
      options = JObj [],
      defaultValue = JStr [],
      hasValue = (\<lambda>v. lodash_has v i),
      base_setValue = (\<lambda>v f. v \<noteq> JStr []),
      base_updateValue = (\<lambda>f. False),
      base_calculateValue = (\<lambda>v f. False),
      base_checkValidity = (\<lambda>v dirty. True),
      base_isValid = (\<lambda>v dirty. True),
      base_checkConditions = (\<lambda>v. True),
      checkCondition = (\<lambda>v. True),
      conditionallyVisible = True\<rparr>"

text \<open>
  A factory that makes a text field for a schema node, a \<^verbatim>\<open>build\<close> that gives the
  instance an element, and a tree with a container between two fields.
\<close>

definition example_create :: "schema \<Rightarrow> jsval \<Rightarrow> jsval \<Rightarrow> bool \<Rightarrow> comp" where
  "example_create s opts d f = Leaf ((field (key s) ''textfield'')\<lparr>component := s\<rparr>)"

definition with_element :: "nat \<Rightarrow> comp \<Rightarrow> comp" where
  "with_element n c = map_base (\<lambda>b. b\<lparr>getElement := Some \<lparr>node = n, parentNode = None\<rparr>\<rparr>) c"

definition new_x :: comp where
  "new_x = Leaf ((field ''x'' ''textfield'')
             \<lparr>component := \<lparr>key = ''x'', hidden = False, internal = False\<rparr>,
              parent := Some ''form'', root := Some ''form''\<rparr>)"

definition hidden_x :: base where
  "hidden_x = (field ''x'' ''textfield'')
                 \<lparr>component := \<lparr>key = ''x'', hidden = True, internal = False\<rparr>,
                  parent := Some ''form'', root := Some ''form''\<rparr>"

definition example_tree :: "comp list" where
  "example_tree =
     [Leaf (field ''a'' ''textfield''),
      Nested (field ''n'' ''components'')
        [Leaf (field ''b1'' ''textfield''), Leaf (field ''b2'' ''textfield'')] (Some []),
      Leaf (field ''c'' ''textfield'')]"

definition returns_false_on :: "string \<Rightarrow> comp \<Rightarrow> jsval" where
  "returns_false_on i c = (if comp_id (base_of c) = i then JBool False else JUndefined)"

definition visited_ids :: "(comp \<times> 'a) list \<Rightarrow> string list" where
  "visited_ids log = map (\<lambda>x. comp_id (base_of (fst x))) log"

text \<open>
  Modelled from the spec: the \<^verbatim>\<open>visible\<close> setter of the base class is outside the
  source. The spec gives the options \<^verbatim>\<open>show\<close> and \<^verbatim>\<open>hide\<close> as a "mapping from key to
  forced boolean visibility" whose "overrides win", and \<^verbatim>\<open>show\<close> of the container reads
  them as \<^verbatim>\<open>options.show[key]\<close> before \<^verbatim>\<open>options.hide[key]\<close>. \<open>forced_visible\<close> is a
  setter that follows them, and \<open>shown_B\<close> a field whose options force it to show.
\<close>

fun js_prop :: "jsval \<Rightarrow> string \<Rightarrow> jsval" where
  "js_prop (JObj kvs) k = (case map_of kvs k of None \<Rightarrow> JUndefined | Some x \<Rightarrow> x)"
| "js_prop v k = JUndefined"

definition forced_visible :: "jsval \<Rightarrow> string \<Rightarrow> bool \<Rightarrow> bool" where
  "forced_visible opts k x =
     (if truthy (js_prop opts ''show'') \<and> truthy (js_prop (js_prop opts ''show'') k) then True
      else if truthy (js_prop opts ''hide'') \<and> truthy (js_prop (js_prop opts ''hide'') k) then False
      else x)"

definition shown_B :: base where
  "shown_B = (field ''B'' ''textfield'')
               \<lparr>options := JObj [(''show'', JObj [(''B'', JBool True)])],
                set_visible := forced_visible (JObj [(''show'', JObj [(''B'', JBool True)])]) ''B''\<rparr>"

text \<open>
  A container with the fields \<open>A\<close> and \<open>B\<close> and a panel that holds another \<open>B\<close>
  and whose own schema declares it hidden, after \<^verbatim>\<open>hideComponents(['B'])\<close>.
\<close>

definition hide_example :: comp where
  "hide_example =
     hideComponents (field ''form'' ''components'')
       [Leaf (field ''A'' ''textfield''),
        Leaf (field ''B'' ''textfield''),
        Nested ((field ''P'' ''components'')
                  \<lparr>component := \<lparr>key = ''P'', hidden = True, internal = False\<rparr>\<rparr>)
          [Leaf (field ''B'' ''textfield'')] (Some [])]
       (Some [''B''])"

section \<open>Properties\<close>

subsection \<open>Auxiliary facts\<close>

lemma setValue_noValidate_mono:
  "noValidate f \<Longrightarrow>
     noValidate (fst (snd (setNestedValue c v f ch))) \<and>
     list_all ev_noValidate (snd (snd (setNestedValue c v f ch)))"
  "noValidate f \<Longrightarrow>
     noValidate (fst (snd (call_setValue c v f))) \<and>
     list_all ev_noValidate (snd (snd (call_setValue c v f)))"
  "noValidate f \<Longrightarrow>
     noValidate (fst (snd (setValue cs v f))) \<and>
     list_all ev_noValidate (snd (snd (setValue cs v f)))"
  "noValidate f \<Longrightarrow>
     noValidate (fst (snd (setValue_reduce cs v f ch))) \<and>
     list_all ev_noValidate (snd (snd (setValue_reduce cs v f ch)))"
proof (induction c v f ch and c v f and cs v f and cs v f ch
       rule: setNestedValue_call_setValue_setValue_setValue_reduce.induct)
  case (1 c v f changed)
  then show ?case by (auto split: prod.splits)
next
  case (2 b v f)
  then show ?case by simp
next
  case (3 b cs h v f)
  then show ?case by (auto split: prod.splits)
next
  case (4 cs v f)
  then show ?case by (auto simp: getFlags_def split: prod.splits)
next
  case (5 v f changed)
  then show ?case by simp
next
  case (6 c cs v f changed)
  then show ?case by (auto split: prod.splits)
qed

lemma setValue_reduce_append:
  "setValue_reduce (xs @ ys) v f ch =
     (case setValue_reduce xs v f ch of
        (ch1, f1, t1) \<Rightarrow>
          (case setValue_reduce ys v f1 ch1 of
             (ch2, f2, t2) \<Rightarrow> (ch2, f2, t1 @ t2)))"
  by (induction xs arbitrary: f ch) (auto split: prod.splits)

lemma call_setValue_log_hd:
  "\<exists>t. snd (snd (call_setValue c v f)) = SetValue (comp_id (base_of c)) v f # t"
  by (cases c) (auto split: prod.splits)

lemma setNestedValue_button:
  "type (base_of c) = ''button'' \<Longrightarrow> setNestedValue c v f changed = (False, f, [])"
  by simp

lemma setNestedValue_components:
  "type (base_of c) = ''components'' \<Longrightarrow>
     \<exists>t. snd (snd (setNestedValue c v f changed)) = SetValue (comp_id (base_of c)) v f # t"
  using call_setValue_log_hd [of c v f] by (auto simp: case_prod_unfold)

lemma setNestedValue_log_hd:
  "type (base_of c) \<noteq> ''button'' \<Longrightarrow>
     \<exists>v' f' t. snd (snd (setNestedValue c v f ch)) = SetValue (comp_id (base_of c)) v' f' # t"
proof -
  assume nb: "type (base_of c) \<noteq> ''button''"
  have "\<exists>v' f'. snd (snd (setNestedValue c v f ch)) = snd (snd (call_setValue c v' f'))"
    using nb by (auto simp: case_prod_unfold)
  then obtain v' f' where "snd (snd (setNestedValue c v f ch)) = snd (snd (call_setValue c v' f'))"
    by blast
  then show ?thesis
    using call_setValue_log_hd [of c v' f'] by (auto simp del: setNestedValue.simps)
qed

lemma setValue_reduce_calls:
  "c \<in> set cs \<Longrightarrow> type (base_of c) \<noteq> ''button'' \<Longrightarrow>
     \<exists>v' f'. SetValue (comp_id (base_of c)) v' f' \<in> set (snd (snd (setValue_reduce cs v f ch)))"
proof (induction cs arbitrary: f ch)
  case Nil
  then show ?case by simp
next
  case (Cons x xs)
  obtain r fx tx where x: "setNestedValue x v f ch = (r, fx, tx)"
    by (cases "setNestedValue x v f ch")
  obtain r' f' t' where xs: "setValue_reduce xs v fx r = (r', f', t')"
    by (cases "setValue_reduce xs v fx r")
  have log: "snd (snd (setValue_reduce (x # xs) v f ch)) = tx @ t'"
    using x xs by (simp del: setNestedValue.simps)
  show ?case
  proof (cases "c = x")
    case True
    then obtain v' g t where "tx = SetValue (comp_id (base_of c)) v' g # t"
      using setNestedValue_log_hd [of x v f ch] Cons.prems(2) x by auto
    then show ?thesis unfolding log by auto
  next
    case False
    then have "c \<in> set xs" using Cons.prems(1) by simp
    then obtain v' g where "SetValue (comp_id (base_of c)) v' g \<in> set t'"
      using Cons.IH [of fx r] Cons.prems(2) xs by auto
    then show ?thesis unfolding log by auto
  qed
qed

text \<open>Without buttons a \<open>changed\<close> that is already true stays true.\<close>

lemma setNestedValue_keeps_changed:
  "type (base_of c) \<noteq> ''button'' \<Longrightarrow> fst (setNestedValue c v f True)"
  by (simp add: case_prod_unfold)

lemma setValue_reduce_keeps_changed:
  "list_all (\<lambda>c. type (base_of c) \<noteq> ''button'') cs \<Longrightarrow> fst (setValue_reduce cs v f True)"
proof (induction cs arbitrary: f)
  case Nil
  then show ?case by simp
next
  case (Cons c cs)
  have "fst (setNestedValue c v f True)"
    using Cons.prems by (simp add: setNestedValue_keeps_changed del: setNestedValue.simps)
  then obtain f' t where "setNestedValue c v f True = (True, f', t)"
    by (cases "setNestedValue c v f True") auto
  then show ?case
    using Cons.IH [of f'] Cons.prems by (simp add: case_prod_unfold del: setNestedValue.simps)
qed

lemma checkValidity_reduce_eq:
  "checkValidity_reduce cs d dirty check =
     (check \<and> list_all (\<lambda>c. fst (call_checkValidity c d dirty)) cs,
      concat (map (\<lambda>c. snd (call_checkValidity c d dirty)) cs))"
  by (induction cs arbitrary: check) (auto split: prod.splits)

lemma isValid_reduce_eq:
  "isValid_reduce cs d dirty valid =
     (valid \<and> list_all (\<lambda>c. fst (call_isValid c d dirty)) cs,
      concat (map (\<lambda>c. snd (call_isValid c d dirty)) cs))"
  by (induction cs arbitrary: valid) (auto split: prod.splits)

lemma call_checkValidity_log_hd:
  "\<exists>t. snd (call_checkValidity c d dirty) = CheckValidity (comp_id (base_of c)) d dirty # t"
  by (cases c) (auto split: prod.splits)

lemma call_isValid_log_hd:
  "\<exists>t. snd (call_isValid c d dirty) = IsValid (comp_id (base_of c)) d dirty # t"
  by (cases c) (auto split: prod.splits)

lemma updateValue_reduce_eq:
  "updateValue_reduce cs f changed =
     (changed \<or> list_ex (\<lambda>c. fst (call_updateValue c f)) cs,
      concat (map (\<lambda>c. snd (call_updateValue c f)) cs))"
  by (induction cs arbitrary: changed) (auto split: prod.splits)

lemma bit_or_01:
  "toInt32 a = 0 \<or> toInt32 a = 1 \<Longrightarrow>
     bit_or a (Boolean r) = Number (if toInt32 a = 1 \<or> r then 1 else 0)"
  by (auto simp: bit_or_def)

lemma bit_and_01:
  "toInt32 a = 0 \<or> toInt32 a = 1 \<Longrightarrow>
     bit_and a (Boolean r) = Number (if toInt32 a = 1 \<and> r then 1 else 0)"
  by (auto simp: bit_and_def)

lemma checkData_forEach_log:
  "snd (snd (checkData_forEach cs d f changed valid)) =
     concat (map (\<lambda>c. snd (call_calculateValue c d only_noUpdateEvent) @
                       snd (call_checkConditions c d) @
                       (if noValidate f then [] else snd (call_checkValidity c d JUndefined))) cs)"
  by (induction cs arbitrary: changed valid) (simp_all add: case_prod_unfold)

lemma checkData_forEach_changed:
  "toInt32 changed = 0 \<or> toInt32 changed = 1 \<Longrightarrow>
   fst (checkData_forEach cs d f changed valid) =
     (if cs = [] then changed
      else Number (if toInt32 changed = 1 \<or>
                      list_ex (\<lambda>c. fst (call_calculateValue c d only_noUpdateEvent)) cs
                   then 1 else 0))"
proof (induction cs arbitrary: changed valid)
  case Nil
  then show ?case by simp
next
  case (Cons c cs)
  obtain r1 t1 where c1: "call_calculateValue c d only_noUpdateEvent = (r1, t1)"
    by (cases "call_calculateValue c d only_noUpdateEvent")
  let ?ch = "bit_or changed (Boolean r1)"
  let ?va = "if noValidate f then valid
             else bit_and valid (Boolean (fst (call_checkValidity c d JUndefined)))"
  have ch: "?ch = Number (if toInt32 changed = 1 \<or> r1 then 1 else 0)"
    using Cons.prems by (rule bit_or_01)
  have ch01: "toInt32 ?ch = 0 \<or> toInt32 ?ch = 1" by (simp add: ch)
  have ch1: "(toInt32 ?ch = 1) = (toInt32 changed = 1 \<or> r1)" by (simp add: ch)
  have "fst (checkData_forEach (c # cs) d f changed valid) =
        fst (checkData_forEach cs d f ?ch ?va)"
    using c1 by (simp add: case_prod_unfold)
  also have "\<dots> = (if cs = [] then ?ch
      else Number (if toInt32 ?ch = 1 \<or>
                      list_ex (\<lambda>c. fst (call_calculateValue c d only_noUpdateEvent)) cs
                   then 1 else 0))"
    by (rule Cons.IH [OF ch01])
  also have "\<dots> = Number (if toInt32 changed = 1 \<or> r1 \<or>
      list_ex (\<lambda>c. fst (call_calculateValue c d only_noUpdateEvent)) cs then 1 else 0)"
    unfolding ch1 by (simp add: ch)
  finally show ?case using c1 by simp
qed

lemma checkData_forEach_valid:
  "toInt32 valid = 0 \<or> toInt32 valid = 1 \<Longrightarrow>
   fst (snd (checkData_forEach cs d f changed valid)) =
     (if cs = [] \<or> noValidate f then valid
      else Number (if toInt32 valid = 1 \<and>
                      list_all (\<lambda>c. fst (call_checkValidity c d JUndefined)) cs
                   then 1 else 0))"
proof (induction cs arbitrary: changed valid)
  case Nil
  then show ?case by simp
next
  case (Cons c cs)
  obtain r1 t1 where c1: "call_calculateValue c d only_noUpdateEvent = (r1, t1)"
    by (cases "call_calculateValue c d only_noUpdateEvent")
  obtain r2 t2 where c2: "call_checkConditions c d = (r2, t2)"
    by (cases "call_checkConditions c d")
  obtain r3 t3 where c3: "call_checkValidity c d JUndefined = (r3, t3)"
    by (cases "call_checkValidity c d JUndefined")
  let ?ch = "bit_or changed (Boolean r1)"
  let ?va = "bit_and valid (Boolean r3)"
  show ?case
  proof (cases "noValidate f")
    case True
    have "fst (snd (checkData_forEach (c # cs) d f changed valid)) =
          fst (snd (checkData_forEach cs d f ?ch valid))"
      using True c1 c2 by (simp add: case_prod_unfold)
    also have "\<dots> = valid"
      using Cons.IH [OF Cons.prems, of ?ch] True by simp
    finally show ?thesis using True by simp
  next
    case False
    have va: "?va = Number (if toInt32 valid = 1 \<and> r3 then 1 else 0)"
      using Cons.prems by (rule bit_and_01)
    have va01: "toInt32 ?va = 0 \<or> toInt32 ?va = 1" by (simp add: va)
    have va1: "(toInt32 ?va = 1) = (toInt32 valid = 1 \<and> r3)" by (simp add: va)
    have "fst (snd (checkData_forEach (c # cs) d f changed valid)) =
          fst (snd (checkData_forEach cs d f ?ch ?va))"
      using False c1 c2 c3 by (simp add: case_prod_unfold)
    also have "\<dots> = (if cs = [] then ?va
        else Number (if toInt32 ?va = 1 \<and>
                        list_all (\<lambda>c. fst (call_checkValidity c d JUndefined)) cs
                     then 1 else 0))"
      using Cons.IH [OF va01, of ?ch] False by simp
    also have "\<dots> = Number (if toInt32 valid = 1 \<and> r3 \<and>
          list_all (\<lambda>c. fst (call_checkValidity c d JUndefined)) cs then 1 else 0)"
      unfolding va1 by (simp add: va)
    finally show ?thesis using False c3 by simp
  qed
qed

lemma each_from_recorder:
  "each_from (each_recorder ret) k log cs =
     (log @ (let calls = zip cs [k..<k + length cs] in
        takeWhile (\<lambda>(c, i). ret c i \<noteq> JBool False) calls @
        take 1 (dropWhile (\<lambda>(c, i). ret c i \<noteq> JBool False) calls)), cs)"
proof (induction cs arbitrary: k log)
  case Nil
  then show ?case by simp
next
  case (Cons c cs)
  have z: "zip (c # cs) [k..<k + length (c # cs)] = (c, k) # zip cs [Suc k..<Suc k + length cs]"
    using upt_conv_Cons [of k "k + Suc (length cs)"] by (simp del: upt_Suc)
  show ?case
    unfolding z by (simp add: each_recorder_def Cons.IH [unfolded each_recorder_def] Let_def)
qed

lemma every_recorder_run:
  "everyComponent (every_recorder ret) log cs =
     (JUndefined, log @ every_visits ret cs 0 cs, cs)"
  "every_each (every_recorder ret) log seen rest =
     (log @ every_visits ret (seen @ rest) (length seen) rest, seen @ rest)"
proof (induction "every_recorder ret" log cs and "every_recorder ret" log seen rest
       rule: everyComponent_every_each.induct)
  case (1 st components)
  then show ?case by simp
next
  case (2 st seen)
  then show ?case by simp
next
  case (3 st seen b rest)
  then show ?case by (simp add: every_recorder_def)
next
  case (4 st seen b cs h rest)
  then show ?case by (simp add: every_recorder_def)
qed

text \<open>
  \<^verbatim>\<open>everyComponent\<close> never returns \<^verbatim>\<open>false\<close>: the test of a child's result against
  \<^verbatim>\<open>false\<close> in its loop never holds.
\<close>

lemma everyComponent_returns_undefined: "fst (everyComponent fn st cs) = JUndefined"
  by (simp add: case_prod_unfold)

lemma getComponent_finder:
  "getComponent cs k fn u =
     (case everyComponent (finder (\<lambda>c. key (component (base_of c)) = k) fn) (None, u) cs of
        (r, (found, u'), cs') \<Rightarrow> (found, u', cs'))"
proof -
  have "(\<lambda>(found, u) c siblings i.
                 if key (component (base_of c)) = k then
                   (case fn of
                      None \<Rightarrow> Returned (JBool False) (Some c, u)
                    | Some g \<Rightarrow>
                        (case g u c siblings of
                           (u', siblings') \<Rightarrow> Spliced (Some c, u') siblings'))
                 else Returned JUndefined (found, u)) =
        finder (\<lambda>c. key (component (base_of c)) = k) fn"
    by (auto simp: fun_eq_iff finder_def split: option.splits)
  then show ?thesis by (simp add: getComponent_def)
qed

lemma getComponentById_finder:
  "getComponentById cs k fn u =
     (case everyComponent (finder (\<lambda>c. comp_id (base_of c) = k) fn) (None, u) cs of
        (r, (found, u'), cs') \<Rightarrow> (found, u', cs'))"
proof -
  have "(\<lambda>(found, u) c siblings n.
                 if comp_id (base_of c) = k then
                   (case fn of
                      None \<Rightarrow> Returned (JBool False) (Some c, u)
                    | Some g \<Rightarrow>
                        (case g u c siblings of
                           (u', siblings') \<Rightarrow> Spliced (Some c, u') siblings'))
                 else Returned JUndefined (found, u)) =
        finder (\<lambda>c. comp_id (base_of c) = k) fn"
    by (auto simp: fun_eq_iff finder_def split: option.splits)
  then show ?thesis by (simp add: getComponentById_def)
qed

lemma finder_miss:
  "\<not> any_comp P cs \<Longrightarrow> everyComponent (finder P fn) st cs = (JUndefined, st, cs)"
  "\<not> any_comp P rest \<Longrightarrow> every_each (finder P fn) st seen rest = (st, seen @ rest)"
proof (induction "finder P fn" st cs and "finder P fn" st seen rest
       rule: everyComponent_every_each.induct)
  case (1 st components)
  then show ?case by simp
next
  case (2 st seen)
  then show ?case by simp
next
  case (3 st seen b rest)
  then show ?case by (simp add: finder_def)
next
  case (4 st seen b cs h rest)
  then show ?case by (simp add: finder_def)
qed

lemma finder_keeps:
  "fst st \<noteq> None \<Longrightarrow> fst (fst (snd (everyComponent (finder P fn) st cs))) \<noteq> None"
  "fst st \<noteq> None \<Longrightarrow> fst (fst (every_each (finder P fn) st seen rest)) \<noteq> None"
proof (induction "finder P fn" st cs and "finder P fn" st seen rest
       rule: everyComponent_every_each.induct)
  case (1 st components)
  then show ?case by (simp add: case_prod_unfold)
next
  case (2 st seen)
  then show ?case by simp
next
  case (3 st seen b rest)
  show ?case
  proof (cases "P (Leaf b)")
    case True
    then show ?thesis by (auto simp: finder_def split: option.splits prod.splits)
  next
    case False
    then have v: "finder P fn st (Leaf b) (seen @ Leaf b # rest) (length seen) = Returned JUndefined st"
      by (simp add: finder_def)
    show ?thesis using "3.hyps" [OF v] "3.prems" v by simp
  qed
next
  case (4 st seen b cs h rest)
  show ?case
  proof (cases "P (Nested b cs h)")
    case True
    then show ?thesis by (auto simp: finder_def split: option.splits prod.splits)
  next
    case False
    then have v: "finder P fn st (Nested b cs h) (seen @ Nested b cs h # rest) (length seen) = Returned JUndefined st"
      by (simp add: finder_def)
    obtain r st' cs' where e: "everyComponent (finder P fn) st cs = (r, st', cs')"
      by (cases "everyComponent (finder P fn) st cs")
    have "fst st' \<noteq> None"
      using "4.hyps"(1) [OF v] "4.prems" e by simp
    then show ?thesis
      using "4.hyps"(2) [OF v _ e [symmetric] refl] v e
      by (simp del: everyComponent.simps)
  qed
qed

lemma finder_hit:
  "any_comp P cs \<Longrightarrow> fst (fst (snd (everyComponent (finder P fn) st cs))) \<noteq> None"
  "any_comp P rest \<Longrightarrow> fst (fst (every_each (finder P fn) st seen rest)) \<noteq> None"
proof (induction "finder P fn" st cs and "finder P fn" st seen rest
       rule: everyComponent_every_each.induct)
  case (1 st components)
  then show ?case by (simp add: case_prod_unfold)
next
  case (2 st seen)
  then show ?case by simp
next
  case (3 st seen b rest)
  show ?case
  proof (cases "P (Leaf b)")
    case True
    then show ?thesis by (auto simp: finder_def split: option.splits prod.splits)
  next
    case False
    then have v: "finder P fn st (Leaf b) (seen @ Leaf b # rest) (length seen) = Returned JUndefined st"
      by (simp add: finder_def)
    from False "3.prems" have "any_comp P rest" by simp
    then show ?thesis using "3.hyps" [OF v] v by simp
  qed
next
  case (4 st seen b cs h rest)
  show ?case
  proof (cases "P (Nested b cs h)")
    case True
    then show ?thesis by (auto simp: finder_def split: option.splits prod.splits)
  next
    case False
    then have v: "finder P fn st (Nested b cs h) (seen @ Nested b cs h # rest) (length seen) = Returned JUndefined st"
      by (simp add: finder_def)
    obtain r st' cs' where e: "everyComponent (finder P fn) st cs = (r, st', cs')"
      by (cases "everyComponent (finder P fn) st cs")
    have r: "r = JUndefined" using e by (simp add: case_prod_unfold)
    show ?thesis
    proof (cases "any_comp P cs")
      case True
      have "fst st' \<noteq> None"
        using "4.hyps"(1) [OF v _ True] e by simp
      then have "fst (fst (every_each (finder P fn) st' (seen @ [Nested b cs' h]) rest)) \<noteq> None"
        by (rule finder_keeps(2))
      then show ?thesis using v e r by (simp del: everyComponent.simps)
    next
      case F2: False
      with False "4.prems" have "any_comp P rest" by simp
      then show ?thesis
        using "4.hyps"(2) [OF v _ e [symmetric] refl] v e r
        by (simp del: everyComponent.simps)
    qed
  qed
qed

lemma getComponent_found:
  "(fst (getComponent cs k fn u) = None) = (\<not> any_comp (\<lambda>c. key (component (base_of c)) = k) cs)"
proof (cases "any_comp (\<lambda>c. key (component (base_of c)) = k) cs")
  case True
  then show ?thesis
    using finder_hit(1) [OF True, of fn "(None, u)"]
    by (simp add: getComponent_finder case_prod_unfold del: everyComponent.simps)
next
  case False
  then show ?thesis
    by (simp add: getComponent_finder finder_miss(1) del: everyComponent.simps)
qed

lemma getComponentById_found:
  "(fst (getComponentById cs k fn u) = None) = (\<not> any_comp (\<lambda>c. comp_id (base_of c) = k) cs)"
proof (cases "any_comp (\<lambda>c. comp_id (base_of c) = k) cs")
  case True
  then show ?thesis
    using finder_hit(1) [OF True, of fn "(None, u)"]
    by (simp add: getComponentById_finder case_prod_unfold del: everyComponent.simps)
next
  case False
  then show ?thesis
    by (simp add: getComponentById_finder finder_miss(1) del: everyComponent.simps)
qed

lemma findIndex_None: "list_all (\<lambda>x. \<not> P x) xs \<Longrightarrow> findIndex P xs = None"
  by (induction xs) auto

lemma findIndex_first:
  "list_all (\<lambda>x. \<not> P x) pre \<Longrightarrow> P e \<Longrightarrow> findIndex P (pre @ e # post) = Some (length pre)"
  by (induction pre) auto

lemma splice_in_at: "splice_in (length pre) x (pre @ post) = pre @ x # post"
  by (simp add: splice_in_def)

lemma findIndex_Some:
  "findIndex P xs = Some i \<Longrightarrow> i < length xs \<and> P (xs ! i) \<and> list_all (\<lambda>x. \<not> P x) (take i xs)"
proof (induction xs arbitrary: i)
  case Nil
  then show ?case by simp
next
  case (Cons x xs)
  show ?case
  proof (cases "P x")
    case True
    then show ?thesis using Cons.prems by simp
  next
    case False
    then obtain j where j: "findIndex P xs = Some j" "i = Suc j"
      using Cons.prems by (auto split: option.splits)
    then show ?thesis using Cons.IH [OF j(1)] False by simp
  qed
qed

text \<open>The index that \<open>createComponent\<close> reports is where the new instance stands.\<close>

lemma createComponent_at:
  assumes "createComponent create build b cs s opts d before = (inst, cs', Some i)"
  shows "i < length cs' \<and> cs' ! i = inst"
proof -
  have ni: "\<not> internal s"
    using assms by (auto simp: createComponent_def Let_def)
  show ?thesis
  proof (cases before)
    case None
    then show ?thesis
      using assms ni by (auto simp: createComponent_def Let_def)
  next
    case (Some bf)
    show ?thesis
    proof (cases "findIndex (\<lambda>c. comp_id (base_of c) = comp_id (base_of bf)) cs")
      case None
      then show ?thesis
        using assms ni Some by (auto simp: createComponent_def Let_def)
    next
      case (Some j)
      then have "j < length cs" using findIndex_Some by blast
      then show ?thesis
        using assms ni \<open>before = Some bf\<close> Some
        by (auto simp: createComponent_def Let_def splice_in_def nth_append)
    qed
  qed
qed

lemma hide_each_map: "hide_each hid cs = map (setHidden hid) cs"
  by (induction cs) simp_all

lemma hide_each_eachComponent:
  "eachComponent (\<lambda>u c i. (JUndefined, u, setHidden hid c)) () cs = ((), hide_each hid cs)"
proof -
  have "each_from (\<lambda>u c i. (JUndefined, u, setHidden hid c)) k () cs = ((), hide_each hid cs)" for k
    by (induction cs arbitrary: k) simp_all
  then show ?thesis by (simp add: eachComponent_def)
qed

lemmas example_defs =
  field_def no_flags_def only_noUpdateEvent_def getFlags_def lodash_has_def lodash_get_def
  comp_key_def

subsection \<open>Value propagation\<close>

text \<open>
  C1. The claim: \<^verbatim>\<open>setValue\<close> returns the logical OR of the children's individual
  results, and a \<open>changed\<close> reported by an earlier child is kept whatever later
  children, skipped buttons included, do. The code keeps the accumulator in every
  branch of \<^verbatim>\<open>setNestedValue\<close> (\<^verbatim>\<open>|| changed\<close>) but the button branch, which returns
  \<^verbatim>\<open>false\<close> and so resets it. Evaluated on a text field that reports a change,
  followed by a button: the field alone reports \<open>True\<close>, the container returns
  \<open>False\<close>.
\<close>

theorem setValue_button_discards_changed:
  "setValue [Leaf (field ''a'' ''textfield''), Leaf (field ''submit'' ''button'')]
            (JObj [(''a'', JNum 1)]) no_flags
     = (False, no_flags, [SetValue ''a'' (JNum 1) no_flags]) \<and>
   child_changed (Leaf (field ''a'' ''textfield'')) (JObj [(''a'', JNum 1)]) no_flags"
  by (simp add: example_defs child_changed_def)

text \<open>
  C10. Once a child takes the defaulting branch (it is neither a button nor of type
  \<^verbatim>\<open>components\<close>, and the value object has no entry for it), the shared flags object
  carries \<^verbatim>\<open>noValidate = true\<close>: the child itself is called with its default value
  and the flag set, every later call of the fold (\<open>t2\<close>) receives flags with the
  flag set, every later sibling that is not a button is among those calls (whether
  or not the value has an entry for it), and the flags object is left so when
  \<^verbatim>\<open>setValue\<close> returns. \<open>t1\<close> and \<open>f1\<close> are the log and the flags after the children
  before it.
\<close>

theorem setValue_default_marks_flags:
  assumes "truthy v"
    and "type (base_of d) \<noteq> ''button''"
    and "type (base_of d) \<noteq> ''components''"
    and "\<not> hasValue (base_of d) v"
    and "setValue_reduce pre v f False = (ch1, f1, t1)"
    and "setValue (pre @ d # post) v f = (ch, f', t)"
  shows "noValidate f' \<and>
         (\<exists>t2. t = t1 @ SetValue (comp_id (base_of d)) (defaultValue (base_of d))
                           (f1\<lparr>noValidate := True\<rparr>) # t2 \<and>
               list_all ev_noValidate t2 \<and>
               list_all (\<lambda>s. type (base_of s) = ''button'' \<or>
                              (\<exists>v' g. SetValue (comp_id (base_of s)) v' g \<in> set t2 \<and> noValidate g))
                        post)"
proof -
  let ?g = "f1\<lparr>noValidate := True\<rparr>"
  obtain r fd td where cd: "call_setValue d (defaultValue (base_of d)) ?g = (r, fd, td)"
    by (cases "call_setValue d (defaultValue (base_of d)) ?g")
  have g: "noValidate ?g" by simp
  have fd: "noValidate fd" and td: "list_all ev_noValidate td"
    using setValue_noValidate_mono(2) [OF g, of d "defaultValue (base_of d)"] cd by simp_all
  obtain td' where td': "td = SetValue (comp_id (base_of d)) (defaultValue (base_of d)) ?g # td'"
    using call_setValue_log_hd [of d "defaultValue (base_of d)" ?g] cd by auto
  have nd: "setNestedValue d v f1 ch1 = (r \<or> ch1, fd, td)"
    using assms(2-4) cd by simp
  obtain rp fp tp where rp: "setValue_reduce post v fd (r \<or> ch1) = (rp, fp, tp)"
    by (cases "setValue_reduce post v fd (r \<or> ch1)")
  have fp: "noValidate fp" and tp: "list_all ev_noValidate tp"
    using setValue_noValidate_mono(4) [OF fd, of post v "r \<or> ch1"] rp by simp_all
  have "setValue (pre @ d # post) v f = (rp, fp, t1 @ td @ tp)"
    using assms(1,5) nd rp
    by (simp add: setValue_reduce_append getFlags_def del: setNestedValue.simps)
  with assms(6) have eq: "f' = fp" "t = t1 @ td @ tp" by simp_all
  have later: "list_all (\<lambda>s. type (base_of s) = ''button'' \<or>
                  (\<exists>v' g. SetValue (comp_id (base_of s)) v' g \<in> set (td' @ tp) \<and> noValidate g)) post"
    unfolding list_all_iff
  proof (intro ballI)
    fix s assume s: "s \<in> set post"
    show "type (base_of s) = ''button'' \<or>
            (\<exists>v' g. SetValue (comp_id (base_of s)) v' g \<in> set (td' @ tp) \<and> noValidate g)"
    proof (cases "type (base_of s) = ''button''")
      case True
      then show ?thesis by simp
    next
      case False
      then obtain v' g where m: "SetValue (comp_id (base_of s)) v' g \<in> set tp"
        using setValue_reduce_calls [OF s, of v fd "r \<or> ch1"] rp by auto
      then have "ev_noValidate (SetValue (comp_id (base_of s)) v' g)"
        using tp by (auto simp add: list_all_iff)
      then show ?thesis using m by auto
    qed
  qed
  show ?thesis
    using fp td tp td' eq later by simp
qed

text \<open>
  C10 at a concrete input: \<open>b\<close> has no entry in the value, its later sibling \<open>c\<close>
  has one and is still called with \<^verbatim>\<open>noValidate\<close> set.
\<close>

theorem setValue_default_marks_flags_witness:
  "truthy (JObj [(''a'', JNum 1), (''c'', JNum 2)]) \<and>
   type (field ''b'' ''textfield'') \<noteq> ''button'' \<and>
   type (field ''b'' ''textfield'') \<noteq> ''components'' \<and>
   \<not> hasValue (field ''b'' ''textfield'') (JObj [(''a'', JNum 1), (''c'', JNum 2)]) \<and>
   setValue [Leaf (field ''a'' ''textfield''), Leaf (field ''b'' ''textfield''),
             Leaf (field ''c'' ''textfield'')]
            (JObj [(''a'', JNum 1), (''c'', JNum 2)]) no_flags =
     (True, no_flags\<lparr>noValidate := True\<rparr>,
      [SetValue ''a'' (JNum 1) no_flags,
       SetValue ''b'' (JStr []) (no_flags\<lparr>noValidate := True\<rparr>),
       SetValue ''c'' (JNum 2) (no_flags\<lparr>noValidate := True\<rparr>)]) \<and>
   noValidate (no_flags\<lparr>noValidate := True\<rparr>) \<and>
   list_all ev_noValidate [SetValue ''c'' (JNum 2) (no_flags\<lparr>noValidate := True\<rparr>)]"
proof -
  let ?v = "JObj [(''a'', JNum 1), (''c'', JNum 2)]"
  let ?a = "Leaf (field ''a'' ''textfield'')"
  let ?b = "Leaf (field ''b'' ''textfield'')"
  let ?c = "Leaf (field ''c'' ''textfield'')"
  have h1: "truthy ?v" by simp
  have h2: "type (base_of ?b) \<noteq> ''button''" by (simp add: field_def)
  have h3: "type (base_of ?b) \<noteq> ''components''" by (simp add: field_def)
  have h4: "\<not> hasValue (base_of ?b) ?v" by (simp add: example_defs)
  have h5: "setValue_reduce [?a] ?v no_flags False = (True, no_flags, [SetValue ''a'' (JNum 1) no_flags])"
    by (simp add: example_defs)
  have h6: "setValue ([?a] @ ?b # [?c]) ?v no_flags =
      (True, no_flags\<lparr>noValidate := True\<rparr>,
       [SetValue ''a'' (JNum 1) no_flags,
        SetValue ''b'' (JStr []) (no_flags\<lparr>noValidate := True\<rparr>),
        SetValue ''c'' (JNum 2) (no_flags\<lparr>noValidate := True\<rparr>)])"
    by (simp add: example_defs)
  from setValue_default_marks_flags [OF h1 h2 h3 h4 h5 h6]
  have "noValidate (no_flags\<lparr>noValidate := True\<rparr>)"
    and "list_all ev_noValidate [SetValue ''c'' (JNum 2) (no_flags\<lparr>noValidate := True\<rparr>)]"
    by (simp_all add: field_def)
  then show ?thesis using h1 h2 h3 h4 h6 by simp
qed

subsection \<open>Validity\<close>

text \<open>
  C2. When the container's own condition is false on the data, \<^verbatim>\<open>checkValidity\<close>
  clears the custom validity message and returns \<open>True\<close>; the whole log is that one
  call, so no child's \<^verbatim>\<open>checkValidity\<close> is invoked. Otherwise the result is the
  conjunction of the container's base validity and every child's result.
\<close>

theorem checkValidity_condition:
  "(\<not> checkCondition b d \<longrightarrow>
      checkValidity b cs d dirty = (True, [SetCustomValidity (comp_id b) []])) \<and>
   (checkCondition b d \<longrightarrow>
      fst (checkValidity b cs d dirty) =
        (base_checkValidity b d dirty \<and> list_all (\<lambda>c. fst (call_checkValidity c d dirty)) cs))"
  by (simp add: checkValidity_reduce_eq)

text \<open>C2 at a concrete input: an invalid child, under a false and under a true condition.\<close>

theorem checkValidity_condition_witness:
  "checkValidity ((field ''panel'' ''components'')\<lparr>checkCondition := (\<lambda>v. False)\<rparr>)
        [Leaf ((field ''a'' ''textfield'')\<lparr>base_checkValidity := (\<lambda>v dirty. False)\<rparr>)]
        (JObj []) (JBool True)
     = (True, [SetCustomValidity ''panel'' []]) \<and>
   fst (checkValidity (field ''panel'' ''components'')
        [Leaf ((field ''a'' ''textfield'')\<lparr>base_checkValidity := (\<lambda>v dirty. False)\<rparr>)]
        (JObj []) (JBool True)) = False"
  using checkValidity_condition
          [of "(field ''panel'' ''components'')\<lparr>checkCondition := (\<lambda>v. False)\<rparr>" "JObj []"
              "[Leaf ((field ''a'' ''textfield'')\<lparr>base_checkValidity := (\<lambda>v dirty. False)\<rparr>)]"
              "JBool True"]
        checkValidity_condition
          [of "field ''panel'' ''components''" "JObj []"
              "[Leaf ((field ''a'' ''textfield'')\<lparr>base_checkValidity := (\<lambda>v dirty. False)\<rparr>)]"
              "JBool True"]
  by (simp add: field_def)

text \<open>
  C4. \<^verbatim>\<open>isValid\<close>, and \<^verbatim>\<open>checkValidity\<close> when the condition applies, first evaluate the
  container's base validity and then call every child in collection order, whatever
  the earlier results were: the log is the base call followed by the logs of all the
  children, each of which starts with the call on that child. The result is the
  conjunction of all of them.
\<close>

theorem validity_folds_reach_every_child:
  "fst (isValid b cs d dirty) =
     (base_isValid b d dirty \<and> list_all (\<lambda>c. fst (call_isValid c d dirty)) cs) \<and>
   snd (isValid b cs d dirty) =
     SuperIsValid (comp_id b) d dirty # concat (map (\<lambda>c. snd (call_isValid c d dirty)) cs) \<and>
   (\<forall>c. \<exists>t. snd (call_isValid c d dirty) = IsValid (comp_id (base_of c)) d dirty # t) \<and>
   (checkCondition b d \<longrightarrow>
      fst (checkValidity b cs d dirty) =
        (base_checkValidity b d dirty \<and> list_all (\<lambda>c. fst (call_checkValidity c d dirty)) cs) \<and>
      snd (checkValidity b cs d dirty) =
        SuperCheckValidity (comp_id b) d dirty #
        concat (map (\<lambda>c. snd (call_checkValidity c d dirty)) cs)) \<and>
   (\<forall>c. \<exists>t. snd (call_checkValidity c d dirty) = CheckValidity (comp_id (base_of c)) d dirty # t)"
  using call_isValid_log_hd call_checkValidity_log_hd
  by (simp add: checkValidity_reduce_eq isValid_reduce_eq)

text \<open>C4 at a concrete input: three children, the first invalid; all three are called.\<close>

theorem validity_folds_reach_every_child_witness:
  "checkValidity (field ''panel'' ''components'')
        [Leaf ((field ''a'' ''textfield'')\<lparr>base_checkValidity := (\<lambda>v dirty. False)\<rparr>),
         Leaf (field ''b'' ''textfield''),
         Leaf (field ''c'' ''textfield'')]
        (JObj []) JUndefined
     = (False, [SuperCheckValidity ''panel'' (JObj []) JUndefined,
                CheckValidity ''a'' (JObj []) JUndefined,
                CheckValidity ''b'' (JObj []) JUndefined,
                CheckValidity ''c'' (JObj []) JUndefined])"
proof -
  let ?b = "field ''panel'' ''components''"
  let ?cs = "[Leaf ((field ''a'' ''textfield'')\<lparr>base_checkValidity := (\<lambda>v dirty. False)\<rparr>),
         Leaf (field ''b'' ''textfield''),
         Leaf (field ''c'' ''textfield'')]"
  have c: "checkCondition ?b (JObj [])" by (simp add: field_def)
  from validity_folds_reach_every_child [of ?b ?cs "JObj []" JUndefined] c
  have "fst (checkValidity ?b ?cs (JObj []) JUndefined) =
        (base_checkValidity ?b (JObj []) JUndefined \<and>
         list_all (\<lambda>c. fst (call_checkValidity c (JObj []) JUndefined)) ?cs)"
    and "snd (checkValidity ?b ?cs (JObj []) JUndefined) =
        SuperCheckValidity (comp_id ?b) (JObj []) JUndefined #
        concat (map (\<lambda>c. snd (call_checkValidity c (JObj []) JUndefined)) ?cs)"
    by blast+
  then have "fst (checkValidity ?b ?cs (JObj []) JUndefined) = False"
    and "snd (checkValidity ?b ?cs (JObj []) JUndefined) =
          [SuperCheckValidity ''panel'' (JObj []) JUndefined,
                CheckValidity ''a'' (JObj []) JUndefined,
                CheckValidity ''b'' (JObj []) JUndefined,
                CheckValidity ''c'' (JObj []) JUndefined]"
    by (simp_all add: field_def del: checkValidity.simps)
  then show ?thesis by (simp add: prod_eq_iff del: checkValidity.simps)
qed

subsection \<open>The change cycle\<close>

text \<open>
  C7, as stated, has \<^verbatim>\<open>checkData\<close> return the accumulated validity as a boolean. With
  one valid child and validation on, the \<^verbatim>\<open>&=\<close> assignment has made it the number 1.
\<close>

theorem checkData_returns_number:
  "fst (checkData (field ''form'' ''components'') [Leaf (field ''a'' ''textfield'')]
          (JObj []) (Some no_flags)) = Number 1"
  by (simp add: checkData_def example_defs bit_and_def bit_or_def)

text \<open>
  C7, amended. With \<^verbatim>\<open>flags.noCheck\<close> set, \<^verbatim>\<open>checkData\<close> returns \<^verbatim>\<open>undefined\<close> and
  calls nothing. Otherwise it runs \<^verbatim>\<open>updateValue\<close>, then for each direct child in
  order \<^verbatim>\<open>calculateValue\<close>, \<^verbatim>\<open>checkConditions\<close> and, unless \<^verbatim>\<open>flags.noValidate\<close>,
  \<^verbatim>\<open>checkValidity\<close>; it fires the change notification exactly when \<^verbatim>\<open>updateValue\<close>
  or some child's \<^verbatim>\<open>calculateValue\<close> reported a change; and it returns the boolean
  \<^verbatim>\<open>true\<close> when no child was validated (no children, or \<^verbatim>\<open>noValidate\<close>), else the
  number 1 when every child's \<^verbatim>\<open>checkValidity\<close> returned true and the number 0 when
  one did not. Passing no flags is passing an empty flags object.
\<close>

theorem checkData_result:
  "(noCheck f \<longrightarrow> checkData b cs d (Some f) = (Undefined, [])) \<and>
   (\<not> noCheck f \<longrightarrow>
      fst (checkData b cs d (Some f)) =
        (if cs = [] \<or> noValidate f then Boolean True
         else Number (if list_all (\<lambda>c. fst (call_checkValidity c d JUndefined)) cs then 1 else 0)) \<and>
      snd (checkData b cs d (Some f)) =
        snd (updateValue cs only_noUpdateEvent) @
        concat (map (\<lambda>c. snd (call_calculateValue c d only_noUpdateEvent) @
                          snd (call_checkConditions c d) @
                          (if noValidate f then [] else snd (call_checkValidity c d JUndefined))) cs) @
        (if fst (updateValue cs only_noUpdateEvent) \<or>
            list_ex (\<lambda>c. fst (call_calculateValue c d only_noUpdateEvent)) cs
         then [TriggerChange (comp_id b) f] else [])) \<and>
   checkData b cs d None = checkData b cs d (Some no_flags)"
proof -
  obtain c0 t0 where u: "updateValue cs only_noUpdateEvent = (c0, t0)"
    by (cases "updateValue cs only_noUpdateEvent")
  obtain ch va t where fe: "checkData_forEach cs d f (Boolean c0) (Boolean True) = (ch, va, t)"
    by (cases "checkData_forEach cs d f (Boolean c0) (Boolean True)")
  have l: "t = concat (map (\<lambda>c. snd (call_calculateValue c d only_noUpdateEvent) @
                          snd (call_checkConditions c d) @
                          (if noValidate f then [] else snd (call_checkValidity c d JUndefined))) cs)"
    using checkData_forEach_log [of cs d f "Boolean c0" "Boolean True"] fe by simp
  have c: "ch = (if cs = [] then Boolean c0
      else Number (if c0 \<or> list_ex (\<lambda>c. fst (call_calculateValue c d only_noUpdateEvent)) cs
                   then 1 else 0))"
    using checkData_forEach_changed [of "Boolean c0" cs d f "Boolean True"] fe by simp
  have v: "va = (if cs = [] \<or> noValidate f then Boolean True
      else Number (if list_all (\<lambda>c. fst (call_checkValidity c d JUndefined)) cs
                   then 1 else 0))"
    using checkData_forEach_valid [of "Boolean True" cs d f "Boolean c0"] fe by simp
  have tr: "truthy_prim ch = (c0 \<or> list_ex (\<lambda>c. fst (call_calculateValue c d only_noUpdateEvent)) cs)"
    by (simp add: c)
  show ?thesis
    using u fe by (simp add: checkData_def l v tr del: updateValue.simps)
qed

text \<open>C7 at concrete inputs: with \<^verbatim>\<open>noCheck\<close>, and without it on a changed and an invalid child.\<close>

theorem checkData_result_witness:
  "checkData (field ''form'' ''components'')
        [Leaf ((field ''a'' ''textfield'')\<lparr>base_calculateValue := (\<lambda>v f. True)\<rparr>),
         Leaf ((field ''b'' ''textfield'')\<lparr>base_checkValidity := (\<lambda>v dirty. False)\<rparr>)]
        (JObj []) (Some (no_flags\<lparr>noCheck := True\<rparr>)) = (Undefined, []) \<and>
   checkData (field ''form'' ''components'')
        [Leaf ((field ''a'' ''textfield'')\<lparr>base_calculateValue := (\<lambda>v f. True)\<rparr>),
         Leaf ((field ''b'' ''textfield'')\<lparr>base_checkValidity := (\<lambda>v dirty. False)\<rparr>)]
        (JObj []) (Some no_flags) =
     (Number 0,
      [UpdateValue ''a'' only_noUpdateEvent, UpdateValue ''b'' only_noUpdateEvent,
       CalculateValue ''a'' (JObj []) only_noUpdateEvent, CheckConditions ''a'' (JObj []),
       CheckValidity ''a'' (JObj []) JUndefined,
       CalculateValue ''b'' (JObj []) only_noUpdateEvent, CheckConditions ''b'' (JObj []),
       CheckValidity ''b'' (JObj []) JUndefined,
       TriggerChange ''form'' no_flags])"
proof -
  let ?b = "field ''form'' ''components''"
  let ?cs = "[Leaf ((field ''a'' ''textfield'')\<lparr>base_calculateValue := (\<lambda>v f. True)\<rparr>),
         Leaf ((field ''b'' ''textfield'')\<lparr>base_checkValidity := (\<lambda>v dirty. False)\<rparr>)]"
  have n1: "noCheck (no_flags\<lparr>noCheck := True\<rparr>)" by simp
  have n2: "\<not> noCheck no_flags" by (simp add: no_flags_def)
  have a: "checkData ?b ?cs (JObj []) (Some (no_flags\<lparr>noCheck := True\<rparr>)) = (Undefined, [])"
    using checkData_result [of "no_flags\<lparr>noCheck := True\<rparr>" ?b ?cs "JObj []"] n1 by blast
  from checkData_result [of no_flags ?b ?cs "JObj []"] n2
  have "fst (checkData ?b ?cs (JObj []) (Some no_flags)) =
        (if ?cs = [] \<or> noValidate no_flags then Boolean True
         else Number (if list_all (\<lambda>c. fst (call_checkValidity c (JObj []) JUndefined)) ?cs then 1 else 0))"
   and "snd (checkData ?b ?cs (JObj []) (Some no_flags)) =
        snd (updateValue ?cs only_noUpdateEvent) @
        concat (map (\<lambda>c. snd (call_calculateValue c (JObj []) only_noUpdateEvent) @
                          snd (call_checkConditions c (JObj [])) @
                          (if noValidate no_flags then [] else snd (call_checkValidity c (JObj []) JUndefined))) ?cs) @
        (if fst (updateValue ?cs only_noUpdateEvent) \<or>
            list_ex (\<lambda>c. fst (call_calculateValue c (JObj []) only_noUpdateEvent)) ?cs
         then [TriggerChange (comp_id ?b) no_flags] else [])"
    by blast+
  then have "fst (checkData ?b ?cs (JObj []) (Some no_flags)) = Number 0"
    and "snd (checkData ?b ?cs (JObj []) (Some no_flags)) =
      [UpdateValue ''a'' only_noUpdateEvent, UpdateValue ''b'' only_noUpdateEvent,
       CalculateValue ''a'' (JObj []) only_noUpdateEvent, CheckConditions ''a'' (JObj []),
       CheckValidity ''a'' (JObj []) JUndefined,
       CalculateValue ''b'' (JObj []) only_noUpdateEvent, CheckConditions ''b'' (JObj []),
       CheckValidity ''b'' (JObj []) JUndefined,
       TriggerChange ''form'' no_flags]"
    by (simp_all add: field_def no_flags_def)
  then have "checkData ?b ?cs (JObj []) (Some no_flags) =
     (Number 0,
      [UpdateValue ''a'' only_noUpdateEvent, UpdateValue ''b'' only_noUpdateEvent,
       CalculateValue ''a'' (JObj []) only_noUpdateEvent, CheckConditions ''a'' (JObj []),
       CheckValidity ''a'' (JObj []) JUndefined,
       CalculateValue ''b'' (JObj []) only_noUpdateEvent, CheckConditions ''b'' (JObj []),
       CheckValidity ''b'' (JObj []) JUndefined,
       TriggerChange ''form'' no_flags])"
    by (simp add: prod_eq_iff)
  with a show ?thesis by simp
qed

subsection \<open>Traversal\<close>

text \<open>
  C6. With a visitor that records its calls and returns what \<open>ret\<close> says,
  \<^verbatim>\<open>eachComponent\<close> visits the direct children in collection order and stops exactly at
  the first one on which the visitor returns the value \<^verbatim>\<open>false\<close> (any other value,
  falsy or not, lets it go on); \<^verbatim>\<open>everyComponent\<close> visits depth first and pre-order,
  enters a container only when its visit did not return \<^verbatim>\<open>false\<close>, and a \<^verbatim>\<open>false\<close>
  inside a subtree ends the loop of that subtree only. Both leave the collection as it
  was, and \<^verbatim>\<open>everyComponent\<close> returns \<^verbatim>\<open>undefined\<close>.
\<close>

theorem traversal_visits:
  "eachComponent (each_recorder ret) [] cs = (each_visits ret cs, cs) \<and>
   everyComponent (every_recorder ret') [] cs = (JUndefined, every_visits ret' cs 0 cs, cs)"
  by (simp add: eachComponent_def each_from_recorder each_visits_def every_recorder_run)

text \<open>
  C6 on the tree \<open>a, n[b1, b2], c\<close>: a visitor that returns \<^verbatim>\<open>undefined\<close> or
  \<^verbatim>\<open>null\<close> sees everything; \<^verbatim>\<open>false\<close> on \<open>b1\<close> skips \<open>b2\<close> but not \<open>c\<close>;
  \<^verbatim>\<open>false\<close> on \<open>n\<close> ends the top-level loop.
\<close>

theorem traversal_visits_witness:
  "visited_ids (fst (eachComponent (each_recorder (\<lambda>c i. JUndefined)) [] example_tree))
     = [''a'', ''n'', ''c''] \<and>
   visited_ids (fst (eachComponent (each_recorder (\<lambda>c i. returns_false_on ''n'' c)) [] example_tree))
     = [''a'', ''n''] \<and>
   visited_ids (fst (snd (everyComponent (every_recorder (\<lambda>c s i. JNull)) [] example_tree)))
     = [''a'', ''n'', ''b1'', ''b2'', ''c''] \<and>
   visited_ids (fst (snd (everyComponent (every_recorder (\<lambda>c s i. returns_false_on ''b1'' c)) [] example_tree)))
     = [''a'', ''n'', ''b1'', ''c''] \<and>
   visited_ids (fst (snd (everyComponent (every_recorder (\<lambda>c s i. returns_false_on ''n'' c)) [] example_tree)))
     = [''a'', ''n'']"
  using traversal_visits [of "\<lambda>c i. JUndefined" example_tree "\<lambda>c s i. JNull"]
        traversal_visits [of "\<lambda>c i. returns_false_on ''n'' c" example_tree "\<lambda>c s i. returns_false_on ''b1'' c"]
        traversal_visits [of "\<lambda>c i. JUndefined" example_tree "\<lambda>c s i. returns_false_on ''n'' c"]
  by (simp add: example_tree_def each_visits_def visited_ids_def returns_false_on_def field_def)

subsection \<open>Removal\<close>

text \<open>
  C5. The claim: \<^verbatim>\<open>removeComponentByKey\<close> and \<^verbatim>\<open>removeComponentById\<close> return
  \<^verbatim>\<open>null\<close> in all cases, as their \<^verbatim>\<open>@return {null}\<close> says. On a miss they do. When
  the match is found and removed no \<^verbatim>\<open>return\<close> statement is reached, and the value is
  \<^verbatim>\<open>undefined\<close>. Evaluated on two fields, removing the first, with a callback: the
  callback gets the instance and the collection it was taken from.
\<close>

theorem removeComponent_found_returns_undefined:
  "removeComponentByKey [Leaf (field ''a'' ''textfield''), Leaf (field ''b'' ''textfield'')] ''a'' True
     = (JUndefined, [Leaf (field ''b'' ''textfield'')],
        [Destroy ''a'',
         Callback (Some (Leaf (field ''a'' ''textfield''))) (Some [Leaf (field ''b'' ''textfield'')])]) \<and>
   removeComponentById [Leaf (field ''a'' ''textfield''), Leaf (field ''b'' ''textfield'')] ''a'' True
     = (JUndefined, [Leaf (field ''b'' ''textfield'')],
        [Destroy ''a'',
         Callback (Some (Leaf (field ''a'' ''textfield''))) (Some [Leaf (field ''b'' ''textfield'')])])"
  by (simp add: removeComponentByKey_def removeComponentById_def getComponent_def
        getComponentById_def removeComponent_def field_def)

subsection \<open>Creating and adding children\<close>

text \<open>
  C8. \<^verbatim>\<open>createComponent\<close> leaves the collection as it is for a schema marked
  \<^verbatim>\<open>internal\<close>. Otherwise the collection grows by the new instance alone: appended
  when no \<^verbatim>\<open>before\<close> is given or no entry has its id, and put immediately before the
  first entry with that id when there is one.
\<close>

theorem createComponent_collection:
  assumes "createComponent create build b cs s opts d before = (inst, cs', at)"
  shows "(internal s \<longrightarrow> cs' = cs) \<and>
   (\<not> internal s \<longrightarrow>
      (before = None \<longrightarrow> cs' = cs @ [inst]) \<and>
      (\<forall>bf. before = Some bf \<longrightarrow>
         (list_all (\<lambda>c. comp_id (base_of c) \<noteq> comp_id (base_of bf)) cs \<longrightarrow> cs' = cs @ [inst]) \<and>
         (\<forall>pre e post.
            cs = pre @ e # post \<and> comp_id (base_of e) = comp_id (base_of bf) \<and>
            list_all (\<lambda>c. comp_id (base_of c) \<noteq> comp_id (base_of bf)) pre \<longrightarrow>
            cs' = pre @ inst # e # post)))"
proof (intro conjI impI allI)
  assume "internal s"
  then show "cs' = cs"
    using assms by (simp add: createComponent_def Let_def)
next
  assume "\<not> internal s" "before = None"
  then show "cs' = cs @ [inst]"
    using assms by (auto simp add: createComponent_def Let_def)
next
  fix bf
  assume a: "\<not> internal s" "before = Some bf"
    "list_all (\<lambda>c. comp_id (base_of c) \<noteq> comp_id (base_of bf)) cs"
  have "findIndex (\<lambda>c. comp_id (base_of c) = comp_id (base_of bf)) cs = None"
    using a(3) by (intro findIndex_None) simp
  then show "cs' = cs @ [inst]"
    using a(1,2) assms by (auto simp add: createComponent_def Let_def)
next
  fix bf pre e post
  assume a: "\<not> internal s" "before = Some bf"
    "cs = pre @ e # post \<and> comp_id (base_of e) = comp_id (base_of bf) \<and>
            list_all (\<lambda>c. comp_id (base_of c) \<noteq> comp_id (base_of bf)) pre"
  have "findIndex (\<lambda>c. comp_id (base_of c) = comp_id (base_of bf)) (pre @ e # post) = Some (length pre)"
    using a(3) by (intro findIndex_first) simp_all
  then show "cs' = pre @ inst # e # post"
    using a assms by (auto simp add: createComponent_def Let_def splice_in_at)
qed

text \<open>
  C8 at concrete inputs: put before \<open>b\<close>; appended when \<^verbatim>\<open>before\<close> has an id that
  no entry has, and when there is no \<^verbatim>\<open>before\<close>; not inserted when internal.
\<close>

theorem createComponent_collection_witness:
  "createComponent example_create (\<lambda>c. c) (field ''form'' ''components'')
       [Leaf (field ''a'' ''textfield''), Leaf (field ''b'' ''textfield'')]
       \<lparr>key = ''x'', hidden = False, internal = False\<rparr> JUndefined JUndefined
       (Some (Leaf (field ''b'' ''textfield'')))
     = (new_x, [Leaf (field ''a'' ''textfield''), new_x, Leaf (field ''b'' ''textfield'')], Some 1) \<and>
   createComponent example_create (\<lambda>c. c) (field ''form'' ''components'')
       [Leaf (field ''a'' ''textfield''), Leaf (field ''b'' ''textfield'')]
       \<lparr>key = ''x'', hidden = False, internal = False\<rparr> JUndefined JUndefined
       (Some (Leaf (field ''z'' ''textfield'')))
     = (new_x, [Leaf (field ''a'' ''textfield''), Leaf (field ''b'' ''textfield''), new_x], Some 2) \<and>
   createComponent example_create (\<lambda>c. c) (field ''form'' ''components'')
       [Leaf (field ''a'' ''textfield''), Leaf (field ''b'' ''textfield'')]
       \<lparr>key = ''x'', hidden = False, internal = False\<rparr> JUndefined JUndefined None
     = (new_x, [Leaf (field ''a'' ''textfield''), Leaf (field ''b'' ''textfield''), new_x], Some 2) \<and>
   fst (snd (createComponent example_create (\<lambda>c. c) (field ''form'' ''components'')
       [Leaf (field ''a'' ''textfield''), Leaf (field ''b'' ''textfield'')]
       \<lparr>key = ''x'', hidden = False, internal = True\<rparr> JUndefined JUndefined
       (Some (Leaf (field ''b'' ''textfield'')))))
     = [Leaf (field ''a'' ''textfield''), Leaf (field ''b'' ''textfield'')]"
proof -
  let ?b = "field ''form'' ''components''"
  let ?A = "Leaf (field ''a'' ''textfield'')"
  let ?B = "Leaf (field ''b'' ''textfield'')"
  let ?Z = "Leaf (field ''z'' ''textfield'')"
  let ?cs = "[?A, ?B]"
  let ?s = "\<lparr>key = ''x'', hidden = False, internal = False\<rparr>"
  let ?s' = "\<lparr>key = ''x'', hidden = False, internal = True\<rparr>"
  have h1: "\<not> internal ?s" by simp
  have h1': "internal ?s'" by simp
  \<comment> \<open>before an entry that is there\<close>
  obtain i1 c1 a1 where
    c1: "createComponent example_create (\<lambda>c. c) ?b ?cs ?s JUndefined JUndefined (Some ?B) = (i1, c1, a1)"
    by (cases "createComponent example_create (\<lambda>c. c) ?b ?cs ?s JUndefined JUndefined (Some ?B)")
  have i1: "i1 = new_x" and a1: "a1 = Some 1"
    using c1 by (auto simp add: createComponent_def example_create_def new_x_def field_def Let_def)
  have h2: "?cs = [?A] @ ?B # []" by simp
  have h3: "list_all (\<lambda>c. comp_id (base_of c) \<noteq> comp_id (base_of ?B)) [?A]"
    by (simp add: field_def)
  have "c1 = [?A] @ i1 # ?B # []"
    using createComponent_collection [OF c1] h1 h2 h3 by blast
  then have one: "createComponent example_create (\<lambda>c. c) ?b ?cs ?s JUndefined JUndefined (Some ?B)
     = (new_x, [?A, new_x, ?B], Some 1)"
    using c1 i1 a1 by simp
  \<comment> \<open>before an entry that is not there\<close>
  obtain i2 c2 a2 where
    c2: "createComponent example_create (\<lambda>c. c) ?b ?cs ?s JUndefined JUndefined (Some ?Z) = (i2, c2, a2)"
    by (cases "createComponent example_create (\<lambda>c. c) ?b ?cs ?s JUndefined JUndefined (Some ?Z)")
  have i2: "i2 = new_x" and a2: "a2 = Some 2"
    using c2 by (auto simp add: createComponent_def example_create_def new_x_def field_def Let_def)
  have h4: "list_all (\<lambda>c. comp_id (base_of c) \<noteq> comp_id (base_of ?Z)) ?cs"
    by (simp add: field_def)
  have "c2 = ?cs @ [i2]"
    using createComponent_collection [OF c2] h1 h4 by blast
  then have two: "createComponent example_create (\<lambda>c. c) ?b ?cs ?s JUndefined JUndefined (Some ?Z)
     = (new_x, [?A, ?B, new_x], Some 2)"
    using c2 i2 a2 by simp
  \<comment> \<open>no before\<close>
  obtain i3 c3 a3 where
    c3: "createComponent example_create (\<lambda>c. c) ?b ?cs ?s JUndefined JUndefined None = (i3, c3, a3)"
    by (cases "createComponent example_create (\<lambda>c. c) ?b ?cs ?s JUndefined JUndefined None")
  have i3: "i3 = new_x" and a3: "a3 = Some 2"
    using c3 by (auto simp add: createComponent_def example_create_def new_x_def field_def Let_def)
  have "c3 = ?cs @ [i3]"
    using createComponent_collection [OF c3] h1 by blast
  then have three: "createComponent example_create (\<lambda>c. c) ?b ?cs ?s JUndefined JUndefined None
     = (new_x, [?A, ?B, new_x], Some 2)"
    using c3 i3 a3 by simp
  \<comment> \<open>internal\<close>
  obtain i4 c4 a4 where
    c4: "createComponent example_create (\<lambda>c. c) ?b ?cs ?s' JUndefined JUndefined (Some ?B) = (i4, c4, a4)"
    by (cases "createComponent example_create (\<lambda>c. c) ?b ?cs ?s' JUndefined JUndefined (Some ?B)")
  have "c4 = ?cs"
    using createComponent_collection [OF c4] h1' by blast
  then show ?thesis using one two three c4 by simp
qed

text \<open>
  C3, as stated, has \<^verbatim>\<open>addComponent\<close> apply \<open>setHidden\<close> to the new child in every
  outcome. For a schema that declares the child hidden, \<open>setHidden\<close> makes the child
  invisible; with \<^verbatim>\<open>noAdd\<close> set, and also when the child has no element, the child
  comes back as it was created, still visible.
\<close>

theorem addComponent_skips_setHidden:
  "addComponent example_create (\<lambda>c. c) (\<lambda>e c. e) (field ''form'' ''components'') [] (Some [])
       \<lparr>key = ''x'', hidden = True, internal = False\<rparr> (Some 0) JUndefined None True
     = Inr (Leaf hidden_x, [Leaf hidden_x], []) \<and>
   addComponent example_create (\<lambda>c. c) (\<lambda>e c. e) (field ''form'' ''components'') [] (Some [])
       \<lparr>key = ''x'', hidden = True, internal = False\<rparr> (Some 0) JUndefined None False
     = Inr (Leaf hidden_x, [Leaf hidden_x], [Warn ''x'']) \<and>
   visible hidden_x \<and>
   \<not> visible (base_of (setHidden (Some []) (Leaf hidden_x)))"
  by (simp add: addComponent_def createComponent_def example_create_def hidden_x_def field_def
        assign_visible_def Let_def)

text \<open>
  C3, amended. \<^verbatim>\<open>addComponent\<close> returns the created instance as it is, without the
  cascade, when \<^verbatim>\<open>noAdd\<close> is set, and also (after a warning) when the instance has no
  element. When \<^verbatim>\<open>noAdd\<close> is not set, the instance has an element and there is an
  element to attach it to, the instance is attached and \<open>setHidden\<close> is applied to it
  before it is returned; the collection's entry shows the same change.
\<close>

theorem addComponent_setHidden:
  assumes "createComponent create build b cs s (options b) (if truthy d then d else data b)
             (case before of None \<Rightarrow> None | Some (bnode, bcomp) \<Rightarrow> bcomp) = (inst, cs', at)"
  shows "(noAdd \<longrightarrow>
            addComponent create build hook b cs hid s el d before noAdd = Inr (inst, cs', [])) \<and>
         (\<not> noAdd \<and> getElement (base_of inst) = None \<longrightarrow>
            addComponent create build hook b cs hid s el d before noAdd =
              Inr (inst, cs', [Warn (key s)])) \<and>
         (\<not> noAdd \<and> getElement (base_of inst) \<noteq> None \<and>
          hook (case el of None \<Rightarrow> map_option node (getElement b) | Some e \<Rightarrow> Some e) inst \<noteq> None \<longrightarrow>
            (\<exists>t. addComponent create build hook b cs hid s el d before noAdd =
                   Inr (setHidden hid inst,
                        (case at of None \<Rightarrow> cs' | Some i \<Rightarrow> cs'[i := setHidden hid inst]),
                        t)))"
  using assms by (auto simp add: addComponent_def Let_def split: option.splits)

text \<open>C3, amended, at concrete inputs: one call for each of the three outcomes.\<close>

theorem addComponent_setHidden_witness:
  "addComponent example_create (\<lambda>c. c) (\<lambda>e c. e) (field ''form'' ''components'') [] (Some [])
       \<lparr>key = ''x'', hidden = True, internal = False\<rparr> (Some 0) JUndefined None True
     = Inr (Leaf hidden_x, [Leaf hidden_x], []) \<and>
   addComponent example_create (\<lambda>c. c) (\<lambda>e c. e) (field ''form'' ''components'') [] (Some [])
       \<lparr>key = ''x'', hidden = True, internal = False\<rparr> (Some 0) JUndefined None False
     = Inr (Leaf hidden_x, [Leaf hidden_x], [Warn ''x'']) \<and>
   addComponent example_create (with_element 7) (\<lambda>e c. e) (field ''form'' ''components'') [] (Some [])
       \<lparr>key = ''x'', hidden = True, internal = False\<rparr> (Some 0) JUndefined None False
     = Inr (setHidden (Some []) (with_element 7 (Leaf hidden_x)),
            [setHidden (Some []) (with_element 7 (Leaf hidden_x))],
            [AppendChild 0 7]) \<and>
   \<not> visible (base_of (setHidden (Some []) (with_element 7 (Leaf hidden_x))))"
proof -
  let ?b = "field ''form'' ''components''"
  let ?s = "\<lparr>key = ''x'', hidden = True, internal = False\<rparr>"
  have c1: "createComponent example_create (\<lambda>c. c) ?b [] ?s (options ?b)
              (if truthy JUndefined then JUndefined else data ?b)
              (case None :: (nat \<times> comp option) option of None \<Rightarrow> None | Some (bnode, bcomp) \<Rightarrow> bcomp)
            = (Leaf hidden_x, [Leaf hidden_x], Some 0)"
    by (simp add: createComponent_def example_create_def hidden_x_def field_def Let_def)
  have c2: "createComponent example_create (with_element 7) ?b [] ?s (options ?b)
              (if truthy JUndefined then JUndefined else data ?b)
              (case None :: (nat \<times> comp option) option of None \<Rightarrow> None | Some (bnode, bcomp) \<Rightarrow> bcomp)
            = (with_element 7 (Leaf hidden_x), [with_element 7 (Leaf hidden_x)], Some 0)"
    by (simp add: createComponent_def example_create_def hidden_x_def field_def Let_def with_element_def)
  have e1: "getElement (base_of (Leaf hidden_x)) = None"
    by (simp add: hidden_x_def field_def)
  have e2: "getElement (base_of (with_element 7 (Leaf hidden_x))) \<noteq> None"
    by (simp add: with_element_def)
  have k: "key ?s = ''x''" by simp
  have a: "addComponent example_create (\<lambda>c. c) (\<lambda>e c. e) ?b [] (Some []) ?s (Some 0) JUndefined None True
     = Inr (Leaf hidden_x, [Leaf hidden_x], [])"
    using addComponent_setHidden [OF c1, where noAdd = True and hook = "\<lambda>e c. e" and hid = "Some []" and el = "Some 0"] by blast
  have b: "addComponent example_create (\<lambda>c. c) (\<lambda>e c. e) ?b [] (Some []) ?s (Some 0) JUndefined None False
     = Inr (Leaf hidden_x, [Leaf hidden_x], [Warn ''x''])"
    using addComponent_setHidden [OF c1, where noAdd = False and hook = "\<lambda>e c. e" and hid = "Some []" and el = "Some 0"] e1 k by metis
  have "\<exists>t. addComponent example_create (with_element 7) (\<lambda>e c. e) ?b [] (Some []) ?s (Some 0) JUndefined None False
     = Inr (setHidden (Some []) (with_element 7 (Leaf hidden_x)),
            (case Some 0 of None \<Rightarrow> [with_element 7 (Leaf hidden_x)]
             | Some i \<Rightarrow> [with_element 7 (Leaf hidden_x)][i := setHidden (Some []) (with_element 7 (Leaf hidden_x))]),
            t)"
    using addComponent_setHidden [OF c2, where noAdd = False and hook = "\<lambda>e c. e" and hid = "Some []" and el = "Some 0"] e2 by simp
  then obtain t where
    c: "addComponent example_create (with_element 7) (\<lambda>e c. e) ?b [] (Some []) ?s (Some 0) JUndefined None False
     = Inr (setHidden (Some []) (with_element 7 (Leaf hidden_x)),
            [setHidden (Some []) (with_element 7 (Leaf hidden_x))], t)"
    by auto
  have "t = [AppendChild 0 7]"
    using c c2
    by (simp add: addComponent_def Let_def with_element_def hidden_x_def field_def
          assign_visible_def)
  moreover have "\<not> visible (base_of (setHidden (Some []) (with_element 7 (Leaf hidden_x))))"
    by (simp add: with_element_def hidden_x_def field_def assign_visible_def)
  ultimately show ?thesis using a b c by simp
qed

subsection \<open>The visibility cascade\<close>

text \<open>
  C9, as stated, has rules (2) to (4) force the child invisible. What \<open>setHidden\<close>
  does there is assign \<^verbatim>\<open>false\<close> to the child's \<^verbatim>\<open>visible\<close> property, and the child's
  setter decides what becomes of it. A field with key \<open>B\<close> that its options force to
  show is among the hidden keys, has no children, and is still visible after
  \<open>setHidden\<close>, alone and as a child under \<^verbatim>\<open>hideComponents(['B'])\<close>.
\<close>

theorem setHidden_override_stays_visible:
  "getComponents (Leaf shown_B) = [] \<and>
   includes_key (Some [''B'']) (comp_key (Leaf shown_B)) \<and>
   visible (base_of (setHidden (Some [''B'']) (Leaf shown_B))) \<and>
   map (\<lambda>c. (comp_id (base_of c), visible (base_of c)))
       (getComponents (hideComponents (field ''form'' ''components'')
                         [Leaf (field ''A'' ''textfield''), Leaf shown_B] (Some [''B''])))
     = [(''A'', True), (''B'', True)]"
  by (simp add: shown_B_def field_def comp_key_def includes_key_def assign_visible_def
        forced_visible_def)

text \<open>
  C9, amended. \<open>setHidden\<close> decides by the first rule that matches: (1) a child with a
  non-empty children list gets \<^verbatim>\<open>hideComponents\<close> with the container's hidden keys, and
  its own part, visibility included, stays as it was, whatever its schema says; (2)
  else a child whose schema declares it hidden, (3) else one whose key is among the
  hidden keys, (4) else one whose conditional check fails has \<^verbatim>\<open>false\<close> assigned to its
  \<^verbatim>\<open>visible\<close> property and nothing else about it changes; (5) otherwise the child is
  left as it is. The assignment runs the child's own setter: where the setter stores
  \<^verbatim>\<open>false\<close>, the child is visible afterwards exactly when it was visible before and
  none of the rules (2) to (4) matched. \<^verbatim>\<open>hideComponents\<close> stores the keys and runs
  \<open>setHidden\<close> on every direct child, which is what its \<^verbatim>\<open>eachComponent\<close> call does.
\<close>

theorem setHidden_priority:
  "(getComponents c \<noteq> [] \<longrightarrow>
      setHidden hid c = hideComponents (base_of c) (getComponents c) hid \<and>
      base_of (setHidden hid c) = base_of c) \<and>
   (getComponents c = [] \<longrightarrow>
      setHidden hid c =
        (if hidden (component (base_of c)) then assign_visible False c
         else if includes_key hid (comp_key c) then assign_visible False c
         else if \<not> conditionallyVisible (base_of c) then assign_visible False c
         else c)) \<and>
   base_of (assign_visible False c) = (base_of c)\<lparr>visible := set_visible (base_of c) False\<rparr> \<and>
   getComponents (assign_visible False c) = getComponents c \<and>
   (getComponents c = [] \<and> \<not> set_visible (base_of c) False \<longrightarrow>
      visible (base_of (setHidden hid c)) =
        (visible (base_of c) \<and> \<not> hidden (component (base_of c)) \<and>
         \<not> includes_key hid (comp_key c) \<and> conditionallyVisible (base_of c))) \<and>
   hideComponents b cs hid = Nested b (map (setHidden hid) cs) hid \<and>
   eachComponent (\<lambda>u x i. (JUndefined, u, setHidden hid x)) () cs = ((), map (setHidden hid) cs)"
proof -
  have 1: "getComponents c \<noteq> [] \<longrightarrow>
      setHidden hid c = hideComponents (base_of c) (getComponents c) hid \<and>
      base_of (setHidden hid c) = base_of c"
  proof (cases c)
    case (Leaf x)
    then show ?thesis by simp
  next
    case (Nested x cs' h)
    then show ?thesis by (cases cs') simp_all
  qed
  have 2: "getComponents c = [] \<longrightarrow>
      setHidden hid c =
        (if hidden (component (base_of c)) then assign_visible False c
         else if includes_key hid (comp_key c) then assign_visible False c
         else if \<not> conditionallyVisible (base_of c) then assign_visible False c
         else c)"
    by (cases c) auto
  have 3: "base_of (assign_visible False c) = (base_of c)\<lparr>visible := set_visible (base_of c) False\<rparr>"
    and 4: "getComponents (assign_visible False c) = getComponents c"
    by (cases c; simp add: assign_visible_def)+
  have 5: "getComponents c = [] \<and> \<not> set_visible (base_of c) False \<longrightarrow>
      visible (base_of (setHidden hid c)) =
        (visible (base_of c) \<and> \<not> hidden (component (base_of c)) \<and>
         \<not> includes_key hid (comp_key c) \<and> conditionallyVisible (base_of c))"
    using 2 3 by auto
  have 6: "eachComponent (\<lambda>u x i. (JUndefined, u, setHidden hid x)) () cs = ((), map (setHidden hid) cs)"
    using hide_each_eachComponent [of hid cs] by (simp add: hide_each_map)
  have 7: "hideComponents b cs hid = Nested b (map (setHidden hid) cs) hid"
    by (simp add: hide_each_map)
  from 1 2 3 4 5 6 7 show ?thesis by blast
qed

text \<open>
  C9, amended, at a concrete input: hiding key \<open>B\<close> on the example container, whose
  fields store what is assigned. \<open>A\<close> keeps its visibility; the panel has children and
  keeps its visibility although its schema declares it hidden; both \<open>B\<close> become
  invisible.
\<close>

theorem setHidden_priority_witness:
  "map (\<lambda>c. (comp_id (base_of c), visible (base_of c))) (getComponents hide_example) =
     [(''A'', True), (''B'', False), (''P'', True)] \<and>
   map (\<lambda>c. (comp_id (base_of c), visible (base_of c)))
       (getComponents (getComponents hide_example ! 2)) = [(''B'', False)]"
proof -
  let ?A = "Leaf (field ''A'' ''textfield'')"
  let ?B = "Leaf (field ''B'' ''textfield'')"
  let ?p = "(field ''P'' ''components'')\<lparr>component := \<lparr>key = ''P'', hidden = True, internal = False\<rparr>\<rparr>"
  let ?P = "Nested ?p [?B] (Some [])"
  let ?hid = "Some [''B'']"
  have h: "hide_example = Nested (field ''form'' ''components'')
             (map (setHidden ?hid) [?A, ?B, ?P]) ?hid"
    unfolding hide_example_def
    using setHidden_priority [of ?A ?hid "field ''form'' ''components''" "[?A, ?B, ?P]"]
    by blast
  have a: "getComponents ?A = []" and b: "getComponents ?B = []" and p: "getComponents ?P \<noteq> []"
    by simp_all
  have nb: "\<not> set_visible (base_of ?B) False" by (simp add: field_def)
  have sa: "setHidden ?hid ?A = ?A"
    using setHidden_priority [of ?A ?hid] a
    by (simp add: field_def comp_key_def includes_key_def)
  have vb: "visible (base_of (setHidden ?hid ?B)) =
        (visible (base_of ?B) \<and> \<not> hidden (component (base_of ?B)) \<and>
         \<not> includes_key ?hid (comp_key ?B) \<and> conditionallyVisible (base_of ?B))"
    using setHidden_priority [of ?B ?hid] b nb by blast
  then have vb': "\<not> visible (base_of (setHidden ?hid ?B))"
    by (simp add: field_def comp_key_def includes_key_def)
  have ib: "comp_id (base_of (setHidden ?hid ?B)) = ''B''"
    using setHidden_priority [of ?B ?hid] b
    by (simp add: field_def comp_key_def includes_key_def assign_visible_def)
  have sp: "setHidden ?hid ?P = Nested ?p [setHidden ?hid ?B] ?hid"
    using setHidden_priority [of ?P ?hid ?p "[?B]"] p
    by simp
  show ?thesis
    unfolding h using vb' ib
    by (simp add: sa sp del: setHidden.simps) (simp add: field_def)
qed

subsection \<open>Further properties\<close>

text \<open>
  X1. A button as the last child makes the fold of \<^verbatim>\<open>setValue\<close> return \<open>False\<close>,
  whatever the children before it reported.
\<close>

theorem setValue_reduce_button_last:
  "type (base_of c) = ''button'' \<Longrightarrow> fst (setValue_reduce (cs @ [c]) v f ch) = False"
  by (simp add: setValue_reduce_append split: prod.splits)

text \<open>X1 at a concrete input: a field that reports a change, then a button.\<close>

theorem setValue_reduce_button_last_witness:
  "type (base_of (Leaf (field ''submit'' ''button''))) = ''button'' \<and>
   fst (setValue_reduce ([Leaf (field ''a'' ''textfield'')] @ [Leaf (field ''submit'' ''button'')])
          (JObj [(''a'', JNum 1)]) no_flags False) = False"
proof -
  have h: "type (base_of (Leaf (field ''submit'' ''button''))) = ''button''"
    by (simp add: field_def)
  from setValue_reduce_button_last [OF h] h show ?thesis by blast
qed

text \<open>
  X2. On every tree \<^verbatim>\<open>removeComponentByKey\<close> returns \<^verbatim>\<open>null\<close> when no node of the tree
  has the key, and \<^verbatim>\<open>undefined\<close> when one has.
\<close>

theorem removeComponentByKey_result:
  "fst (removeComponentByKey cs k has_fn) =
     (if any_comp (\<lambda>c. key (component (base_of c)) = k) cs then JUndefined else JNull)"
proof -
  let ?g = "\<lambda>log c siblings.
                (case removeComponent cs c (Some siblings) of
                   (siblings', t) \<Rightarrow>
                     (log @ t @ (if has_fn then [Callback (Some c) (Some siblings')] else []),
                      siblings'))"
  obtain found log cs' where g: "getComponent cs k (Some ?g) [] = (found, log, cs')"
    by (cases "getComponent cs k (Some ?g) []")
  have "(found = None) = (\<not> any_comp (\<lambda>c. key (component (base_of c)) = k) cs)"
    using getComponent_found [of cs k "Some ?g" "[]"] g by simp
  then show ?thesis
    unfolding removeComponentByKey_def g by (cases found) simp_all
qed

text \<open>X3. The same for \<^verbatim>\<open>removeComponentById\<close> and the id.\<close>

theorem removeComponentById_result:
  "fst (removeComponentById cs k has_fn) =
     (if any_comp (\<lambda>c. comp_id (base_of c) = k) cs then JUndefined else JNull)"
proof -
  let ?g = "\<lambda>log c siblings.
                (case removeComponent cs c (Some siblings) of
                   (siblings', t) \<Rightarrow>
                     (log @ t @ (if has_fn then [Callback (Some c) (Some siblings')] else []),
                      siblings'))"
  obtain found log cs' where g: "getComponentById cs k (Some ?g) [] = (found, log, cs')"
    by (cases "getComponentById cs k (Some ?g) []")
  have "(found = None) = (\<not> any_comp (\<lambda>c. comp_id (base_of c) = k) cs)"
    using getComponentById_found [of cs k "Some ?g" "[]"] g by simp
  then show ?thesis
    unfolding removeComponentById_def g by (cases found) simp_all
qed

text \<open>
  X4. On a miss \<^verbatim>\<open>removeComponentByKey\<close> leaves the tree as it is, and the callback,
  when there is one, is called once, with \<^verbatim>\<open>null\<close>.
\<close>

theorem removeComponentByKey_miss:
  "\<not> any_comp (\<lambda>c. key (component (base_of c)) = k) cs \<Longrightarrow>
     removeComponentByKey cs k has_fn =
       (JNull, cs, if has_fn then [Callback None None] else [])"
  by (simp add: removeComponentByKey_def getComponent_finder finder_miss(1)
           del: everyComponent.simps)

text \<open>X4 at a concrete input: a key that the example tree does not hold.\<close>

theorem removeComponentByKey_miss_witness:
  "\<not> any_comp (\<lambda>c. key (component (base_of c)) = ''zz'') example_tree \<and>
   removeComponentByKey example_tree ''zz'' True = (JNull, example_tree, [Callback None None])"
proof -
  have h: "\<not> any_comp (\<lambda>c. key (component (base_of c)) = ''zz'') example_tree"
    by (simp add: example_tree_def field_def)
  from removeComponentByKey_miss [OF h, of True] h show ?thesis by simp
qed

text \<open>X5. The same for \<^verbatim>\<open>removeComponentById\<close>.\<close>

theorem removeComponentById_miss:
  "\<not> any_comp (\<lambda>c. comp_id (base_of c) = k) cs \<Longrightarrow>
     removeComponentById cs k has_fn =
       (JNull, cs, if has_fn then [Callback None None] else [])"
  by (simp add: removeComponentById_def getComponentById_finder finder_miss(1)
           del: everyComponent.simps)

text \<open>X5 at a concrete input: an id that the example tree does not hold, and no callback.\<close>

theorem removeComponentById_miss_witness:
  "\<not> any_comp (\<lambda>c. comp_id (base_of c) = ''zz'') example_tree \<and>
   removeComponentById example_tree ''zz'' False = (JNull, example_tree, [])"
proof -
  have h: "\<not> any_comp (\<lambda>c. comp_id (base_of c) = ''zz'') example_tree"
    by (simp add: example_tree_def field_def)
  from removeComponentById_miss [OF h, of False] h show ?thesis by simp
qed

text \<open>Removing a key that is found at depth two: the parent's collection loses the entry.\<close>

lemma remove_nested_example:
  "removeComponentByKey example_tree ''b1'' True =
     (JUndefined,
      [Leaf (field ''a'' ''textfield''),
       Nested (field ''n'' ''components'') [Leaf (field ''b2'' ''textfield'')] (Some []),
       Leaf (field ''c'' ''textfield'')],
      [Destroy ''b1'',
       Callback (Some (Leaf (field ''b1'' ''textfield''))) (Some [Leaf (field ''b2'' ''textfield'')])])"
  by (simp add: removeComponentByKey_def getComponent_def removeComponent_def example_tree_def field_def)

end
